theory Spec2Isabelle
  imports Main
begin

section \<open>Text: Python strings as lists of code points\<close>

text \<open>
  A Python \<^verbatim>\<open>str\<close> is a sequence of Unicode code points and \<^verbatim>\<open>len\<close> counts them, so a
  text is a list of natural numbers and its length is \<open>length\<close>.  String literals of the
  source are written through \<open>u\<close>, which reads an ASCII literal as its code points.
\<close>

type_synonym ustr = "nat list"

definition u :: "string \<Rightarrow> ustr" where
  "u s = map of_char s"

definition nl :: nat where
  "nl = 10"

definition sp :: nat where
  "sp = 32"

text \<open>
  \<^verbatim>\<open>\s\<close> in a \<^verbatim>\<open>str\<close> pattern and \<^verbatim>\<open>str.strip()\<close> both use the Unicode whitespace test of
  the interpreter: TAB-CR, FS-US, SPACE, NEL, NBSP, OGHAM SPACE, EN QUAD-HAIR SPACE, LINE and
  PARAGRAPH SEPARATOR, NNBSP, MMSP and IDEOGRAPHIC SPACE.
\<close>

definition is_space :: "nat \<Rightarrow> bool" where
  "is_space c \<longleftrightarrow>
     (9 \<le> c \<and> c \<le> 13) \<or> (28 \<le> c \<and> c \<le> 32) \<or> c = 133 \<or> c = 160 \<or> c = 5760 \<or>
     (8192 \<le> c \<and> c \<le> 8202) \<or> c = 8232 \<or> c = 8233 \<or> c = 8239 \<or> c = 8287 \<or> c = 12288"

text \<open>
  Case-insensitive comparison of a text character \<open>c\<close> with a pattern character \<open>p\<close>, as
  \<^verbatim>\<open>re.I\<close> does it on \<^verbatim>\<open>str\<close> patterns: the pattern character is lower-cased, and the text
  character matches when its lower case is that character or one of its listed case
  equivalents.  Every pattern of the source is ASCII, and the code points whose lower case
  is an ASCII letter are the letter, its capital, U+0130 (for i) and U+212A (for k); the
  equivalents are U+0131 for i and U+017F for s.
\<close>

definition ascii_lower :: "nat \<Rightarrow> nat" where
  "ascii_lower p = (if 65 \<le> p \<and> p \<le> 90 then p + 32 else p)"

definition ci_eq :: "nat \<Rightarrow> nat \<Rightarrow> bool" where
  "ci_eq p c \<longleftrightarrow>
     (let lp = ascii_lower p in
        c = lp \<or> (97 \<le> lp \<and> lp \<le> 122 \<and> c + 32 = lp) \<or>
        (lp = 105 \<and> (c = 304 \<or> c = 305)) \<or> (lp = 115 \<and> c = 383) \<or> (lp = 107 \<and> c = 8490))"

text \<open>\<open>ci_prefix p s\<close>: the literal \<open>p\<close> matched at the head of \<open>s\<close>, giving the rest of \<open>s\<close>.\<close>

fun ci_prefix :: "ustr \<Rightarrow> ustr \<Rightarrow> ustr option" where
  "ci_prefix [] s = Some s"
| "ci_prefix (p # ps) [] = None"
| "ci_prefix (p # ps) (c # cs) = (if ci_eq p c then ci_prefix ps cs else None)"

text \<open>An alternation of literals \<^verbatim>\<open>p1|p2|...\<close> at the head of \<open>s\<close>: the first alternative that
  matches wins.\<close>

fun match_alt :: "ustr list \<Rightarrow> ustr \<Rightarrow> ustr option" where
  "match_alt [] s = None"
| "match_alt (p # ps) s = (case ci_prefix p s of Some r \<Rightarrow> Some r | None \<Rightarrow> match_alt ps s)"

text \<open>\<^verbatim>\<open>re.search\<close> of such an alternation: is there a match at some position.\<close>

fun search_alt :: "ustr list \<Rightarrow> ustr \<Rightarrow> bool" where
  "search_alt ps [] = (match_alt ps [] \<noteq> None)"
| "search_alt ps (c # cs) = (match_alt ps (c # cs) \<noteq> None \<or> search_alt ps cs)"

section \<open>The text normalizer \<^verbatim>\<open>clean_text\<close>\<close>

text \<open>
  \<^verbatim>\<open>re.sub(r'\n\s*\n', '\n\n', text)\<close>.  After a newline, the greedy \<^verbatim>\<open>\s*\<close> takes the whole
  run of whitespace and backtracks to the last newline of that run; \<open>match_blank\<close> gives the
  text after that newline, or \<open>None\<close> when the run holds no newline.  \<^verbatim>\<open>re.sub\<close> replaces the
  leftmost matches, resuming after each.
\<close>

definition match_blank :: "ustr \<Rightarrow> ustr option" where
  "match_blank cs =
     (let w = takeWhile is_space cs in
      if nl \<in> set w
      then Some (rev (takeWhile (\<lambda>c. c \<noteq> nl) (rev w)) @ dropWhile is_space cs)
      else None)"

lemma match_blank_length: "match_blank cs = Some r \<Longrightarrow> length r \<le> length cs"
proof -
  assume a: "match_blank cs = Some r"
  let ?w = "takeWhile is_space cs"
  from a have r: "r = rev (takeWhile (\<lambda>c. c \<noteq> nl) (rev ?w)) @ dropWhile is_space cs"
    by (simp add: match_blank_def Let_def split: if_splits)
  have "length (takeWhile (\<lambda>c. c \<noteq> nl) (rev ?w)) \<le> length ?w"
    using length_takeWhile_le [of "\<lambda>c. c \<noteq> nl" "rev ?w"] by simp
  moreover have "length ?w + length (dropWhile is_space cs) = length cs"
    by (metis length_append takeWhile_dropWhile_id)
  ultimately show ?thesis using r by simp
qed

function sub_blank :: "ustr \<Rightarrow> ustr" where
  "sub_blank [] = []"
| "sub_blank (c # cs) =
     (if c = nl
      then (case match_blank cs of
              Some rest \<Rightarrow> nl # nl # sub_blank rest
            | None \<Rightarrow> c # sub_blank cs)
      else c # sub_blank cs)"
  by pat_completeness auto
termination
  by (relation "measure length") (auto dest: match_blank_length)

text \<open>\<^verbatim>\<open>re.sub(r'\s+', ' ', text)\<close>: every maximal run of whitespace becomes one space.\<close>

function sub_ws :: "ustr \<Rightarrow> ustr" where
  "sub_ws [] = []"
| "sub_ws (c # cs) =
     (if is_space c then sp # sub_ws (dropWhile is_space cs) else c # sub_ws cs)"
  by pat_completeness auto
termination
  by (relation "measure length") (auto simp: le_imp_less_Suc length_dropWhile_le)

text \<open>\<^verbatim>\<open>re.sub(r'(?i)continue reading|read more|more for you|advertisement', '', text)\<close>.\<close>

definition phrases :: "ustr list" where
  "phrases = [u ''continue reading'', u ''read more'', u ''more for you'', u ''advertisement'']"

lemma ci_prefix_length: "ci_prefix p s = Some r \<Longrightarrow> length r + length p = length s"
  by (induction p s rule: ci_prefix.induct) (auto split: if_splits)

lemma match_alt_length:
  "match_alt ps s = Some r \<Longrightarrow> \<exists>p\<in>set ps. length r + length p = length s"
  by (induction ps) (auto split: option.splits dest: ci_prefix_length)

lemma match_phrases_length: "match_alt phrases (c # cs) = Some r \<Longrightarrow> length r \<le> length cs"
  by (drule match_alt_length) (auto simp: phrases_def u_def)

function sub_phrases :: "ustr \<Rightarrow> ustr" where
  "sub_phrases [] = []"
| "sub_phrases (c # cs) =
     (case match_alt phrases (c # cs) of
        Some rest \<Rightarrow> sub_phrases rest
      | None \<Rightarrow> c # sub_phrases cs)"
  by pat_completeness auto
termination
  by (relation "measure length") (auto simp: le_imp_less_Suc dest: match_phrases_length)

text \<open>\<^verbatim>\<open>str.strip()\<close>.\<close>

definition strip :: "ustr \<Rightarrow> ustr" where
  "strip s = rev (dropWhile is_space (rev (dropWhile is_space s)))"

definition clean_text :: "ustr \<Rightarrow> ustr" where
  "clean_text text =
     (if text = [] then []
      else strip (sub_phrases (sub_ws (sub_blank text))))"

section \<open>The document tree\<close>

text \<open>
  The parsed document is the tree the markup library builds: strings and tags, a tag with
  its name, its attributes (as parsed: names in lower case, each name once) and its
  contents.  A string has a class, given by the parser: plain text is a
  \<^verbatim>\<open>NavigableString\<close>, a comment a \<^verbatim>\<open>Comment\<close>, the content of a script, style or template
  element a \<^verbatim>\<open>Script\<close>, \<^verbatim>\<open>Stylesheet\<close> or \<^verbatim>\<open>TemplateString\<close>, and so on.

  The source mutates the tree in place through \<^verbatim>\<open>decompose()\<close> while it still holds
  references to other elements of it, so an element is identified by its path from the
  root (the indices of the contents lists), and \<open>decompose\<close> marks the tag as gone instead
  of dropping it: paths stay valid, and everything below a gone tag is destroyed, that is,
  no query finds it and its text is empty.  The root is the document object itself.
\<close>

datatype strclass =
    NavigableString | CData | Comment | Declaration | Doctype | ProcessingInstruction
  | Stylesheet | Script | TemplateString | RubyTextString | RubyParenthesisString

fun class_name :: "strclass \<Rightarrow> ustr" where
  "class_name NavigableString = u ''NavigableString''"
| "class_name CData = u ''CData''"
| "class_name Comment = u ''Comment''"
| "class_name Declaration = u ''Declaration''"
| "class_name Doctype = u ''Doctype''"
| "class_name ProcessingInstruction = u ''ProcessingInstruction''"
| "class_name Stylesheet = u ''Stylesheet''"
| "class_name Script = u ''Script''"
| "class_name TemplateString = u ''TemplateString''"
| "class_name RubyTextString = u ''RubyTextString''"
| "class_name RubyParenthesisString = u ''RubyParenthesisString''"

datatype node =
    Str strclass ustr
  | Tag bool ustr "(ustr \<times> ustr) list" "node list"

type_synonym path = "nat list"

fun node_at :: "node \<Rightarrow> path \<Rightarrow> node option" where
  "node_at n [] = Some n"
| "node_at (Str b s) (i # p) = None"
| "node_at (Tag g nm as ks) (i # p) = (if i < length ks then node_at (ks ! i) p else None)"

text \<open>\<open>live_at d p\<close>: the node at \<open>p\<close> exists and neither it nor a tag above it is gone.\<close>

fun live_at :: "node \<Rightarrow> path \<Rightarrow> bool" where
  "live_at (Str b s) p = (p = [])"
| "live_at (Tag g nm as ks) [] = (\<not> g)"
| "live_at (Tag g nm as ks) (i # p) = (\<not> g \<and> i < length ks \<and> live_at (ks ! i) p)"

text \<open>\<^verbatim>\<open>tag.decompose()\<close> for the tag at path \<open>p\<close>.\<close>

fun decompose :: "node \<Rightarrow> path \<Rightarrow> node" where
  "decompose (Str b s) p = Str b s"
| "decompose (Tag g nm as ks) [] = Tag True nm as ks"
| "decompose (Tag g nm as ks) (i # p) =
     (if i < length ks then Tag g nm as (ks[i := decompose (ks ! i) p]) else Tag g nm as ks)"

text \<open>
  \<^verbatim>\<open>tag.get_text()\<close>: the strings below the tag, in document order, whose class is one the
  tag counts.  Which classes a tag counts depends on its name: a script, style, template,
  rt or rp tag counts the class of its own content, every other tag counts
  \<^verbatim>\<open>NavigableString\<close> and \<^verbatim>\<open>CData\<close>.  The classes of the tag the call is made on decide for
  all the strings below it.
\<close>

definition interesting_string_types :: "ustr \<Rightarrow> strclass list" where
  "interesting_string_types nm =
     (if nm = u ''rt'' then [RubyTextString]
      else if nm = u ''rp'' then [RubyParenthesisString]
      else if nm = u ''style'' then [Stylesheet]
      else if nm = u ''script'' then [Script]
      else if nm = u ''template'' then [TemplateString]
      else [NavigableString, CData])"

fun all_strings :: "strclass list \<Rightarrow> node \<Rightarrow> ustr" where
  "all_strings types (Str c s) = (if c \<in> set types then s else [])"
| "all_strings types (Tag g nm as ks) =
     (if g then [] else concat (map (all_strings types) ks))"

fun get_text :: "node \<Rightarrow> ustr" where
  "get_text (Str c s) = s"
| "get_text (Tag g nm as ks) = all_strings (interesting_string_types nm) (Tag g nm as ks)"

definition text_at :: "node \<Rightarrow> path \<Rightarrow> ustr" where
  "text_at d p =
     (if live_at d p then (case node_at d p of Some n \<Rightarrow> get_text n | None \<Rightarrow> []) else [])"

text \<open>
  The live nodes below a node in document order, each with its path and its ancestors
  (nearest first).  \<open>rp\<close> is the reversed path of the node visited.
\<close>

type_synonym item = "path \<times> node list \<times> node"

fun items :: "path \<Rightarrow> node list \<Rightarrow> node \<Rightarrow> item list"
  and items_list :: "path \<Rightarrow> node list \<Rightarrow> nat \<Rightarrow> node list \<Rightarrow> item list" where
  "items rp ancs (Str b s) = [(rev rp, ancs, Str b s)]"
| "items rp ancs (Tag g nm as ks) =
     (if g then []
      else (rev rp, ancs, Tag g nm as ks) # items_list rp (Tag g nm as ks # ancs) 0 ks)"
| "items_list rp ancs i [] = []"
| "items_list rp ancs i (k # ks) = items (i # rp) ancs k @ items_list rp ancs (Suc i) ks"

text \<open>The descendants of the document object, and those below the element at \<open>p\<close>.\<close>

definition all_items :: "node \<Rightarrow> item list" where
  "all_items d = (case d of Str b s \<Rightarrow> [] | Tag g nm as ks \<Rightarrow> tl (items [] [] d))"

definition items_under :: "node \<Rightarrow> path \<Rightarrow> item list" where
  "items_under d p =
     filter (\<lambda>(q, ancs, n). length p < length q \<and> take (length p) q = p) (all_items d)"

fun is_tag :: "node \<Rightarrow> bool" where
  "is_tag (Tag g nm as ks) = True"
| "is_tag (Str b s) = False"

fun tag_name :: "node \<Rightarrow> ustr" where
  "tag_name (Tag g nm as ks) = nm"
| "tag_name (Str b s) = []"

fun attr :: "node \<Rightarrow> ustr \<Rightarrow> ustr option" where
  "attr (Tag g nm as ks) k = map_of as k"
| "attr (Str b s) k = None"

text \<open>The value of a \<^verbatim>\<open>class\<close> attribute is kept as the list of its whitespace-separated
  tokens.\<close>

lemma dropWhile_nonspace_length:
  "s \<noteq> [] \<Longrightarrow> \<not> is_space (hd s) \<Longrightarrow> length (dropWhile (\<lambda>c. \<not> is_space c) s) < length s"
  by (cases s) (auto simp: le_imp_less_Suc length_dropWhile_le)

function split_ws :: "ustr \<Rightarrow> ustr list" where
  "split_ws s =
     (let s1 = dropWhile is_space s in
      if s1 = [] then []
      else takeWhile (\<lambda>c. \<not> is_space c) s1 # split_ws (dropWhile (\<lambda>c. \<not> is_space c) s1))"
  by pat_completeness auto
termination
proof (relation "measure length")
  show "wf (measure length)" by simp
next
  fix s x
  assume x: "x = dropWhile is_space s" and ne: "x \<noteq> []"
  then have "\<not> is_space (hd x)" using hd_dropWhile [of is_space s] by simp
  with ne have "length (dropWhile (\<lambda>c. \<not> is_space c) x) < length x"
    by (rule dropWhile_nonspace_length)
  also have "length x \<le> length s" unfolding x by (rule length_dropWhile_le)
  finally show "(dropWhile (\<lambda>c. \<not> is_space c) x, s) \<in> measure length" by simp
qed

definition classes :: "node \<Rightarrow> ustr list" where
  "classes n = (case attr n (u ''class'') of None \<Rightarrow> [] | Some v \<Rightarrow> split_ws v)"

subsection \<open>CSS selectors\<close>

text \<open>
  The selectors of the source are type selectors, class selectors, id selectors, attribute
  selectors \<^verbatim>\<open>[name="value"]\<close>, and two of these joined by the descendant combinator.  A
  selector is the list of its compounds, outermost first.
\<close>

datatype simple_sel = ByTag ustr | ByClass ustr | ById ustr | ByAttr ustr ustr

type_synonym selector = "simple_sel list"

fun simple_match :: "simple_sel \<Rightarrow> node \<Rightarrow> bool" where
  "simple_match (ByTag t) n = (is_tag n \<and> tag_name n = t)"
| "simple_match (ByClass c) n = (is_tag n \<and> c \<in> set (classes n))"
| "simple_match (ById i) n = (is_tag n \<and> attr n (u ''id'') = Some i)"
| "simple_match (ByAttr k v) n = (is_tag n \<and> attr n k = Some v)"

text \<open>The outer compounds of a selector, innermost first, against the ancestors of an
  element, nearest first.\<close>

fun ancestors_match :: "simple_sel list \<Rightarrow> node list \<Rightarrow> bool" where
  "ancestors_match [] ancs = True"
| "ancestors_match (s # ss) [] = False"
| "ancestors_match (s # ss) (a # ancs) =
     ((simple_match s a \<and> ancestors_match ss ancs) \<or> ancestors_match (s # ss) ancs)"

definition sel_match :: "selector \<Rightarrow> node list \<Rightarrow> node \<Rightarrow> bool" where
  "sel_match sel ancs n =
     (case rev sel of [] \<Rightarrow> False | s # outer \<Rightarrow> simple_match s n \<and> ancestors_match outer ancs)"

text \<open>\<^verbatim>\<open>soup.select(selector)\<close>, \<^verbatim>\<open>soup.select_one(selector)\<close>, \<^verbatim>\<open>soup.find(name)\<close> and
  \<^verbatim>\<open>tag.find_all([names])\<close>: elements in document order.\<close>

definition select :: "node \<Rightarrow> selector \<Rightarrow> path list" where
  "select d sel = map fst (filter (\<lambda>(q, ancs, n). sel_match sel ancs n) (all_items d))"

definition select_one :: "node \<Rightarrow> selector \<Rightarrow> path option" where
  "select_one d sel = (case select d sel of [] \<Rightarrow> None | q # qs \<Rightarrow> Some q)"

definition soup_find :: "node \<Rightarrow> ustr \<Rightarrow> path option" where
  "soup_find d nm = select_one d [ByTag nm]"

definition find_all_names :: "node \<Rightarrow> path \<Rightarrow> ustr list \<Rightarrow> path list" where
  "find_all_names d p nms =
     map fst (filter (\<lambda>(q, ancs, n). is_tag n \<and> tag_name n \<in> set nms) (items_under d p))"

section \<open>The noise stripper \<^verbatim>\<open>remove_overlays_and_clean_content\<close>\<close>

text \<open>An exception, by its message \<^verbatim>\<open>str(e)\<close>.\<close>

datatype exn = Exn ustr

fun str_of :: "exn \<Rightarrow> ustr" where
  "str_of (Exn m) = m"

definition removal_ids :: "ustr list" where
  "removal_ids = map u
     [''continue-reading'', ''read-more'', ''moreButton'', ''more-content'',
      ''below-article'', ''bottom-article'', ''mid-article'', ''article-interruption'',
      ''ad-insertion'', ''advertisement'', ''sponsored-content'', ''taboola'',
      ''outbrain'', ''related-articles'', ''suggested-content'', ''newsletter-signup'',
      ''subscription-prompt'', ''more-for-you'', ''trending-stories'']"

definition removal_classes :: "ustr list" where
  "removal_classes = map u
     [''continue-reading'', ''read-more-button'', ''article-break'',
      ''article-interstitial'', ''ad-break'', ''sponsored-content'',
      ''newsletter-unit'', ''subscription-unit'', ''paywall-container'',
      ''below-article-content'', ''article-interruption'', ''story-interrupt'',
      ''mid-article-unit'', ''article-divide'', ''more-for-you'',
      ''content-separation'', ''story-break'', ''loading-block'']"

definition text_patterns :: "ustr list" where
  "text_patterns = map u
     [''continue reading'', ''read more'', ''more for you'', ''sponsored content'',
      ''advertisement'', ''recommended'', ''popular stories'', ''trending now'',
      ''you might like'', ''more stories'', ''more articles'', ''keep reading'',
      ''load more'']"

text \<open>\<^verbatim>\<open>sep.join(xs)\<close>.\<close>

fun join :: "ustr \<Rightarrow> ustr list \<Rightarrow> ustr" where
  "join sep [] = []"
| "join sep [x] = x"
| "join sep (x # y # xs) = x @ sep @ join sep (y # xs)"

text \<open>
  \<^verbatim>\<open>soup.find_all(id=re.compile(pattern, re.I))\<close>, the same for \<^verbatim>\<open>class_\<close> (a tag matches when
  one of its classes does, or the classes joined by spaces do) and for \<^verbatim>\<open>string\<close> (every
  string of the tree, of whatever class).
\<close>

definition find_all_id :: "node \<Rightarrow> ustr \<Rightarrow> path list" where
  "find_all_id d pat =
     map fst (filter (\<lambda>(q, ancs, n). is_tag n \<and>
        (case attr n (u ''id'') of None \<Rightarrow> False | Some v \<Rightarrow> search_alt [pat] v)) (all_items d))"

definition find_all_class :: "node \<Rightarrow> ustr \<Rightarrow> path list" where
  "find_all_class d pat =
     map fst (filter (\<lambda>(q, ancs, n). is_tag n \<and> attr n (u ''class'') \<noteq> None \<and>
        (list_ex (search_alt [pat]) (classes n) \<or> search_alt [pat] (join [sp] (classes n))))
        (all_items d))"

definition find_all_string :: "node \<Rightarrow> ustr \<Rightarrow> path list" where
  "find_all_string d pat =
     map fst (filter (\<lambda>(q, ancs, n). case n of Str b s \<Rightarrow> search_alt [pat] s | Tag g nm as ks \<Rightarrow> False)
        (all_items d))"

text \<open>\<^verbatim>\<open>for element in ...: element.decompose()\<close>.\<close>

definition decompose_all :: "node \<Rightarrow> path list \<Rightarrow> node" where
  "decompose_all d qs = fold (\<lambda>q d. decompose d q) qs d"

definition strip_ids :: "node \<Rightarrow> node" where
  "strip_ids d = fold (\<lambda>pat d. decompose_all d (find_all_id d pat)) removal_ids d"

definition strip_classes :: "node \<Rightarrow> node" where
  "strip_classes d = fold (\<lambda>pat d. decompose_all d (find_all_class d pat)) removal_classes d"

text \<open>
  The \<^verbatim>\<open>while\<close> loop of the text-pattern pass, with \<open>p\<close> the path of \<^verbatim>\<open>parent\<close>.  The document
  object has no parent, which ends the loop.
\<close>

definition walk_tags :: "ustr list" where
  "walk_tags = map u [''button'', ''a'', ''div'', ''section'']"

definition removable :: "node \<Rightarrow> path \<Rightarrow> bool" where
  "removable d p =
     (case node_at d p of
        Some n \<Rightarrow> is_tag n \<and> tag_name n \<in> set walk_tags \<and> length (text_at d p) < 1000
      | None \<Rightarrow> False)"

function walk_up :: "node \<Rightarrow> path \<Rightarrow> node" where
  "walk_up d p =
     (if removable d p
      then (if p = [] then decompose d p else walk_up (decompose d p) (butlast p))
      else d)"
  by pat_completeness auto
termination
  by (relation "measure (\<lambda>(d, p). length p)") auto

declare walk_up.simps [simp del]

text \<open>
  \<^verbatim>\<open>for element in elements\<close>: the strings were listed before the loop, so a later one may
  lie in a subtree that an earlier walk destroyed.  Such a string has lost its attributes,
  and \<^verbatim>\<open>element.parent\<close> raises \<^verbatim>\<open>AttributeError\<close>, with a message that names the class of
  the string.
\<close>

definition no_parent :: "strclass \<Rightarrow> exn" where
  "no_parent c =
     Exn ([39] @ class_name c @ [39] @ u '' object has no attribute '' @ [39] @ u ''parent'' @ [39])"

fun class_of :: "node option \<Rightarrow> strclass" where
  "class_of (Some (Str c s)) = c"
| "class_of n = NavigableString"

fun walk_strings :: "node \<Rightarrow> path list \<Rightarrow> exn + node" where
  "walk_strings d [] = Inr d"
| "walk_strings d (q # qs) =
     (if live_at d q then walk_strings (walk_up d (butlast q)) qs
      else Inl (no_parent (class_of (node_at d q))))"

fun strip_text_patterns :: "node \<Rightarrow> ustr list \<Rightarrow> exn + node" where
  "strip_text_patterns d [] = Inr d"
| "strip_text_patterns d (pat # pats) =
     (case walk_strings d (find_all_string d pat) of
        Inl e \<Rightarrow> Inl e
      | Inr d1 \<Rightarrow> strip_text_patterns d1 pats)"

section \<open>The collaborators\<close>

text \<open>
  What the source calls and does not define: the two proxy services (the request may
  raise; the Oxylabs answer has a status code; reading the page out of the decoded answer
  may raise or give a string or null), the markup parser \<^verbatim>\<open>BeautifulSoup(html, 'html.parser')\<close>
  and the serializer \<^verbatim>\<open>str(soup)\<close>, and the generic extractor
  \<^verbatim>\<open>Article(url, language); download(input_html); parse(); text\<close>.
\<close>

record collab =
  oxylabs_request :: "ustr \<Rightarrow> exn + (int \<times> (exn + ustr option))"
  zyte_request :: "ustr \<Rightarrow> exn + (exn + ustr option)"
  parse_html :: "ustr \<Rightarrow> exn + node"
  to_markup :: "node \<Rightarrow> ustr"
  article_text :: "ustr \<Rightarrow> ustr \<Rightarrow> ustr \<Rightarrow> exn + ustr"

definition remove_overlays_and_clean_content :: "collab \<Rightarrow> ustr \<Rightarrow> exn + ustr" where
  "remove_overlays_and_clean_content env html_content =
     (if html_content = [] then Inr html_content
      else case parse_html env html_content of
        Inl e \<Rightarrow> Inl e
      | Inr soup \<Rightarrow>
          (case strip_text_patterns (strip_classes (strip_ids soup)) text_patterns of
             Inl e \<Rightarrow> Inl e
           | Inr soup1 \<Rightarrow> Inr (to_markup env soup1)))"

text \<open>\<^verbatim>\<open>sub in s\<close>.\<close>

fun starts_with :: "ustr \<Rightarrow> ustr \<Rightarrow> bool" where
  "starts_with [] s = True"
| "starts_with (p # ps) [] = False"
| "starts_with (p # ps) (c # cs) = (p = c \<and> starts_with ps cs)"

fun contains :: "ustr \<Rightarrow> ustr \<Rightarrow> bool" where
  "contains sub [] = starts_with sub []"
| "contains sub (c # cs) = (starts_with sub (c # cs) \<or> contains sub cs)"

text \<open>The proxies return the page, or \<^verbatim>\<open>None\<close> on any failure of theirs.\<close>

definition f_oxylabs_proxy :: "collab \<Rightarrow> ustr \<Rightarrow> ustr option" where
  "f_oxylabs_proxy env url =
     (let url1 = (if \<not> contains (u ''http://'') url \<and> \<not> contains (u ''https://'') url
                  then u ''https://'' @ url else url)
      in case oxylabs_request env url1 of
           Inl e \<Rightarrow> None
         | Inr (status_code, body) \<Rightarrow>
             if status_code \<noteq> 200 then None
             else (case body of
                     Inl e \<Rightarrow> None
                   | Inr None \<Rightarrow> None
                   | Inr (Some content) \<Rightarrow>
                       (case remove_overlays_and_clean_content env content of
                          Inl e \<Rightarrow> None
                        | Inr html \<Rightarrow> Some html)))"

definition f_zyte_proxy :: "collab \<Rightarrow> ustr \<Rightarrow> ustr option" where
  "f_zyte_proxy env url =
     (case zyte_request env url of
        Inl e \<Rightarrow> None
      | Inr (Inl e) \<Rightarrow> None
      | Inr (Inr None) \<Rightarrow> None
      | Inr (Inr (Some html_content)) \<Rightarrow>
          (case remove_overlays_and_clean_content env html_content of
             Inl e \<Rightarrow> None
           | Inr html \<Rightarrow> Some html))"

definition clean_input_text :: "ustr \<Rightarrow> ustr" where
  "clean_input_text text = (if text = [] then [] else strip text)"

section \<open>The orchestrator \<^verbatim>\<open>extract_article\<close>\<close>

subsection \<open>Content location\<close>

definition content_selectors :: "selector list" where
  "content_selectors =
     [[ByTag (u ''article'')],
      [ByAttr (u ''itemprop'') (u ''articleBody'')],
      [ByClass (u ''article-content'')],
      [ByClass (u ''article-body'')],
      [ByClass (u ''story-content'')],
      [ByClass (u ''post-content'')],
      [ByTag (u ''main''), ByTag (u ''article'')],
      [ByTag (u ''main''), ByClass (u ''article'')],
      [ByClass (u ''main-content''), ByTag (u ''article'')],
      [ByClass (u ''content-area''), ByTag (u ''article'')],
      [ByClass (u ''entry-content'')],
      [ByClass (u ''post-body'')],
      [ByClass (u ''story-body'')],
      [ByAttr (u ''role'') (u ''main'')],
      [ByClass (u ''caas-body'')],
      [ByTag (u ''main'')],
      [ById (u ''main-content'')],
      [ByClass (u ''main-content'')]]"

definition unwanted :: "ustr list" where
  "unwanted = map u [''script'', ''style'', ''iframe'', ''noscript'', ''form'']"

text \<open>\<^verbatim>\<open>for unwanted in content.find_all([...]): unwanted.decompose()\<close>.\<close>

definition strip_unwanted :: "node \<Rightarrow> path \<Rightarrow> node" where
  "strip_unwanted d p = decompose_all d (find_all_names d p unwanted)"

text \<open>The test \<^verbatim>\<open>if text and len(text) > 100\<close>.\<close>

definition accepted :: "ustr \<Rightarrow> bool" where
  "accepted text \<longleftrightarrow> text \<noteq> [] \<and> length text > 100"

text \<open>
  \<^verbatim>\<open>for content in contents\<close>: the elements of one tier, selected before the loop.  The
  result is the document as the loop leaves it and the texts it appended.
\<close>

fun tier_elems :: "node \<Rightarrow> path list \<Rightarrow> node \<times> ustr list" where
  "tier_elems d [] = (d, [])"
| "tier_elems d (p # ps) =
     (let d1 = strip_unwanted d p;
          text = clean_text (text_at d1 p);
          (d2, rest) = tier_elems d1 ps
      in (d2, if accepted text then text # rest else rest))"

definition tier :: "node \<Rightarrow> selector \<Rightarrow> node \<times> ustr list" where
  "tier d sel = tier_elems d (select d sel)"

text \<open>\<^verbatim>\<open>for selector in content_selectors\<close>, left at the first tier that appended a text.\<close>

fun cascade :: "node \<Rightarrow> selector list \<Rightarrow> node \<times> ustr list" where
  "cascade d [] = (d, [])"
| "cascade d (sel # sels) =
     (case tier d sel of
        (d1, texts) \<Rightarrow> if texts \<noteq> [] then (d1, texts) else cascade d1 sels)"

text \<open>The cascade, then the generic extractor when the cascade found nothing:
  \<^verbatim>\<open>full_content\<close> and the document as the cascade left it.\<close>

definition locate_content ::
    "collab \<Rightarrow> ustr \<Rightarrow> ustr \<Rightarrow> ustr \<Rightarrow> node \<Rightarrow> exn + (node \<times> ustr list)" where
  "locate_content env url language cleaned_html soup =
     (case cascade soup content_selectors of
        (d1, texts) \<Rightarrow>
          if texts \<noteq> [] then Inr (d1, texts)
          else (case article_text env url language cleaned_html of
                  Inl e \<Rightarrow> Inl e
                | Inr t \<Rightarrow> Inr (d1, if t \<noteq> [] \<and> clean_text t \<noteq> [] then [clean_text t] else [])))"

subsection \<open>Metadata recovery\<close>

definition title_selectors :: "selector list" where
  "title_selectors =
     [[ByAttr (u ''itemprop'') (u ''headline'')],
      [ByClass (u ''article-title'')],
      [ByClass (u ''entry-title'')],
      [ByClass (u ''post-title'')],
      [ByClass (u ''story-title'')]]"

definition date_selectors :: "selector list" where
  "date_selectors =
     [[ByAttr (u ''itemprop'') (u ''datePublished'')],
      [ByClass (u ''article-date'')],
      [ByClass (u ''post-date'')],
      [ByClass (u ''published-date'')],
      [ByTag (u ''time'')]]"

definition author_selectors :: "selector list" where
  "author_selectors =
     [[ByAttr (u ''itemprop'') (u ''author'')],
      [ByClass (u ''article-author'')],
      [ByClass (u ''post-author'')],
      [ByClass (u ''author-name'')],
      [ByClass (u ''byline'')]]"

text \<open>\<^verbatim>\<open>for selector in ...: elem = soup.select_one(selector); if elem: ...; break\<close>: the
  element of the first selector that matches anything (a tag is always true).\<close>

fun first_match :: "node \<Rightarrow> selector list \<Rightarrow> path option" where
  "first_match d [] = None"
| "first_match d (sel # sels) =
     (case select_one d sel of Some p \<Rightarrow> Some p | None \<Rightarrow> first_match d sels)"

definition extract_title :: "node \<Rightarrow> ustr option" where
  "extract_title d =
     (let title = (case soup_find d (u ''h1'') of
                     Some p \<Rightarrow> Some (strip (text_at d p))
                   | None \<Rightarrow> None)
      in if title = None \<or> title = Some []
         then (case first_match d title_selectors of
                 Some p \<Rightarrow> Some (strip (text_at d p))
               | None \<Rightarrow> title)
         else title)"

definition attr_at :: "node \<Rightarrow> path \<Rightarrow> ustr \<Rightarrow> ustr option" where
  "attr_at d p k = (case node_at d p of Some n \<Rightarrow> attr n k | None \<Rightarrow> None)"

definition extract_date :: "node \<Rightarrow> ustr option" where
  "extract_date d =
     (case first_match d date_selectors of
        None \<Rightarrow> None
      | Some p \<Rightarrow>
          Some (case attr_at d p (u ''datetime'') of
                  Some v \<Rightarrow> v
                | None \<Rightarrow> strip (text_at d p)))"

text \<open>\<^verbatim>\<open>if author and author not in authors: authors.append(author)\<close>.\<close>

definition add_author :: "ustr list \<Rightarrow> ustr \<Rightarrow> ustr list" where
  "add_author authors author =
     (if author \<noteq> [] \<and> author \<notin> set authors then authors @ [author] else authors)"

definition author_texts :: "node \<Rightarrow> selector \<Rightarrow> ustr list" where
  "author_texts d sel = map (\<lambda>p. strip (text_at d p)) (select d sel)"

definition extract_authors :: "node \<Rightarrow> ustr list" where
  "extract_authors d =
     fold (\<lambda>sel authors. fold (\<lambda>a authors. add_author authors a) (author_texts d sel) authors)
       author_selectors []"

subsection \<open>The result record and the call\<close>

record article =
  art_url :: ustr
  art_title :: "ustr option"
  art_text :: ustr
  art_authors :: "ustr list"
  art_publish_date :: "ustr option"
  art_method :: ustr

datatype result = Failure ustr ustr | Extracted article

fun result_url :: "result \<Rightarrow> ustr" where
  "result_url (Failure url err) = url"
| "result_url (Extracted a) = art_url a"

text \<open>The proxy chosen by name; any other name raises \<^verbatim>\<open>ValueError\<close>.\<close>

definition fetch :: "collab \<Rightarrow> ustr \<Rightarrow> ustr \<Rightarrow> exn + ustr option" where
  "fetch env url use_proxy =
     (if use_proxy = u ''oxylabs'' then Inr (f_oxylabs_proxy env url)
      else if use_proxy = u ''zyte'' then Inr (f_zyte_proxy env url)
      else Inl (Exn (u ''Invalid proxy provider: '' @ use_proxy)))"

text \<open>The body of the \<^verbatim>\<open>try\<close> block: it returns a record or raises.\<close>

definition assemble :: "ustr \<Rightarrow> ustr \<Rightarrow> node \<Rightarrow> ustr list \<Rightarrow> result" where
  "assemble url use_proxy d full_content =
     (if full_content = [] then Failure url (u ''No content found'')
      else Extracted \<lparr>art_url = url,
             art_title = extract_title d,
             art_text = clean_text (join [nl, nl] full_content),
             art_authors = extract_authors d,
             art_publish_date = extract_date d,
             art_method = use_proxy\<rparr>)"

definition extract_body :: "collab \<Rightarrow> ustr \<Rightarrow> ustr \<Rightarrow> ustr \<Rightarrow> exn + result" where
  "extract_body env url use_proxy language =
     (case fetch env url use_proxy of
        Inl e \<Rightarrow> Inl e
      | Inr None \<Rightarrow> Inr (Failure url (u ''No response from proxy''))
      | Inr (Some response) \<Rightarrow>
          if response = [] then Inr (Failure url (u ''No response from proxy''))
          else (case remove_overlays_and_clean_content env (clean_input_text response) of
                  Inl e \<Rightarrow> Inl e
                | Inr cleaned_html \<Rightarrow>
                    (case parse_html env cleaned_html of
                       Inl e \<Rightarrow> Inl e
                     | Inr soup \<Rightarrow>
                         (case locate_content env url language cleaned_html soup of
                            Inl e \<Rightarrow> Inl e
                          | Inr (d1, full_content) \<Rightarrow>
                              Inr (assemble url use_proxy d1 full_content)))))"

text \<open>\<^verbatim>\<open>except Exception as e: return {"url": url, "error": str(e)}\<close>.\<close>

definition extract_article :: "collab \<Rightarrow> ustr \<Rightarrow> ustr \<Rightarrow> ustr \<Rightarrow> result" where
  "extract_article env url use_proxy language =
     (case extract_body env url use_proxy language of
        Inl e \<Rightarrow> Failure url (str_of e)
      | Inr r \<Rightarrow> r)"

section \<open>Notions used to state the properties\<close>

text \<open>Two whitespace characters next to each other.\<close>

fun adjacent_spaces :: "ustr \<Rightarrow> bool" where
  "adjacent_spaces (a # b # cs) = ((is_space a \<and> is_space b) \<or> adjacent_spaces (b # cs))"
| "adjacent_spaces cs = False"

text \<open>The document as the tiers \<open>sels\<close>, run in this order, leave it.\<close>

definition doc_after :: "node \<Rightarrow> selector list \<Rightarrow> node" where
  "doc_after d sels = fold (\<lambda>sel d. fst (tier d sel)) sels d"

subsection \<open>Sample documents and collaborators\<close>

text \<open>Two texts of 101 characters, \<^verbatim>\<open>xxx...\<close> and \<^verbatim>\<open>yyy...\<close>.\<close>

definition long_x :: ustr where
  "long_x = replicate 101 120"

definition long_y :: ustr where
  "long_y = replicate 101 121"

definition doc :: "node list \<Rightarrow> node" where
  "doc ks = Tag False (u ''[document]'') [] ks"

definition elem :: "string \<Rightarrow> (string \<times> string) list \<Rightarrow> node list \<Rightarrow> node" where
  "elem nm as ks = Tag False (u nm) (map (\<lambda>(k, v). (u k, u v)) as) ks"

text \<open>\<^verbatim>\<open><article><form><main>xxx...</main></form></article>\<close>\<close>

definition d4 :: node where
  "d4 = doc [elem ''article'' [] [elem ''form'' [] [elem ''main'' [] [Str NavigableString long_x]]]]"

text \<open>\<^verbatim>\<open><div itemprop="articleBody">\<close> with 80 characters, then \<^verbatim>\<open><main>\<close> with 500.\<close>

definition d4w :: node where
  "d4w = doc [elem ''div'' [(''itemprop'', ''articleBody'')] [Str NavigableString (replicate 80 120)],
              elem ''main'' [] [Str NavigableString (replicate 500 121)]]"

text \<open>\<^verbatim>\<open><article><form><main>xxx...</main></form></article><div id="main-content">yyy...</div>\<close>\<close>

definition d5 :: node where
  "d5 = doc [elem ''article'' [] [elem ''form'' [] [elem ''main'' [] [Str NavigableString long_x]]],
             elem ''div'' [(''id'', ''main-content'')] [Str NavigableString long_y]]"

text \<open>\<^verbatim>\<open><article>xxx...</article><main>yyy...</main>\<close>\<close>

definition d5w :: node where
  "d5w = doc [elem ''article'' [] [Str NavigableString long_x], elem ''main'' [] [Str NavigableString long_y]]"

text \<open>
  Collaborators that serve one page through the Zyte proxy: the proxy answers with the
  markup \<open>page\<close>, the parser reads it as the tree \<open>d\<close>, the serializer writes \<open>page\<close> again,
  the Oxylabs request times out, and the generic extractor is \<open>fb\<close>.
\<close>

definition page :: ustr where
  "page = u ''<html>...</html>''"

definition serve :: "node \<Rightarrow> (ustr \<Rightarrow> ustr \<Rightarrow> ustr \<Rightarrow> exn + ustr) \<Rightarrow> collab" where
  "serve d fb = \<lparr>oxylabs_request = (\<lambda>url. Inl (Exn (u ''timeout''))),
                  zyte_request = (\<lambda>url. Inr (Inr (Some page))),
                  parse_html = (\<lambda>html. Inr d),
                  to_markup = (\<lambda>d. page),
                  article_text = fb\<rparr>"

text \<open>\<^verbatim>\<open><h1>Title Text</h1><main>\<close> with 150 characters \<^verbatim>\<open></main>\<close>, and a generic extractor
  that finds nothing.\<close>

definition d_e2e :: node where
  "d_e2e = doc [elem ''h1'' [] [Str NavigableString (u ''Title Text'')],
                elem ''main'' [] [Str NavigableString (replicate 150 120)]]"

definition env0 :: collab where
  "env0 = serve d_e2e (\<lambda>url language html. Inr [])"

text \<open>\<^verbatim>\<open><main>xxx...</main>\<close> with no title, date or author, and a generic extractor that
  raises.\<close>

definition d9 :: node where
  "d9 = doc [elem ''main'' [] [Str NavigableString long_x]]"

definition env9 :: collab where
  "env9 = serve d9 (\<lambda>url language html. Inl (Exn (u ''boom'')))"

text \<open>\<^verbatim>\<open><p>Too short</p>\<close>, and a generic extractor that finds nothing.\<close>

definition d_none :: node where
  "d_none = doc [elem ''p'' [] [Str NavigableString (u ''Too short'')]]"

definition env_none :: collab where
  "env_none = serve d_none (\<lambda>url language html. Inr [])"

text \<open>\<^verbatim>\<open><button><span>Read More</span></button>\<close>, \<^verbatim>\<open><button>Read More</button>\<close>, and a
  section holding \<^verbatim>\<open>read more\<close> and 1000 more characters.\<close>

definition d6 :: node where
  "d6 = doc [elem ''button'' [] [elem ''span'' [] [Str NavigableString (u ''Read More'')]]]"

definition d6b :: node where
  "d6b = doc [elem ''button'' [] [Str NavigableString (u ''Read More'')]]"

definition d6s :: node where
  "d6s = doc [elem ''section'' [] [Str NavigableString (u ''read more '' @ replicate 1000 120)]]"



text \<open>The fallback of the title as claim C8 words it: the first selector of the list whose
  matched element has a non-empty trimmed text.\<close>

fun first_nonempty_match :: "node \<Rightarrow> selector list \<Rightarrow> ustr option" where
  "first_nonempty_match d [] = None"
| "first_nonempty_match d (sel # sels) =
     (case select_one d sel of
        Some p \<Rightarrow> if strip (text_at d p) \<noteq> [] then Some (strip (text_at d p))
                  else first_nonempty_match d sels
      | None \<Rightarrow> first_nonempty_match d sels)"

definition title_as_claimed :: "node \<Rightarrow> ustr option" where
  "title_as_claimed d =
     (case soup_find d (u ''h1'') of
        Some p \<Rightarrow> if strip (text_at d p) \<noteq> [] then Some (strip (text_at d p))
                  else first_nonempty_match d title_selectors
      | None \<Rightarrow> first_nonempty_match d title_selectors)"

text \<open>No \<^verbatim>\<open>h1\<close>, an empty \<^verbatim>\<open><div itemprop="headline">\<close>, then
  \<^verbatim>\<open><div class="article-title">Real</div>\<close>.\<close>

definition d8 :: node where
  "d8 = doc [elem ''div'' [(''itemprop'', ''headline'')] [],
             elem ''div'' [(''class'', ''article-title'')] [Str NavigableString (u ''Real'')]]"

text \<open>The normalized texts of the elements \<open>ps\<close> of a tier, in order, each read once its own
  script, style, iframe, noscript and form subtrees, and those of the elements before it,
  are deleted.\<close>

fun tier_texts :: "node \<Rightarrow> path list \<Rightarrow> ustr list" where
  "tier_texts d [] = []"
| "tier_texts d (p # ps) =
     clean_text (text_at (strip_unwanted d p) p) # tier_texts (strip_unwanted d p) ps"

text \<open>\<^verbatim>\<open><main>\<close> with exactly 100 characters.\<close>

definition d100 :: node where
  "d100 = doc [elem ''main'' [] [Str NavigableString (replicate 100 120)]]"

text \<open>Every element of \<open>ps\<close>, deleted in this order, passes the test of the walk at the
  moment of its deletion.\<close>

fun all_removable :: "node \<Rightarrow> path list \<Rightarrow> bool" where
  "all_removable d [] = True"
| "all_removable d (a # as) = (removable d a \<and> all_removable (decompose d a) as)"

text \<open>A section holding \<^verbatim>\<open>read more\<close>, 989 more characters and \<^verbatim>\<open><a>read more</a>\<close>: 1008
  characters with the link, 999 without.\<close>

definition d6n :: node where
  "d6n = doc [elem ''section'' []
               [Str NavigableString (u ''read more '' @ replicate 989 120),
                elem ''a'' [] [Str NavigableString (u ''read more'')]]]"

section \<open>Properties of the text normalizer\<close>

lemma sub_ws_chars: "c \<in> set (sub_ws s) \<Longrightarrow> is_space c \<Longrightarrow> c = sp"
  by (induction s rule: sub_ws.induct) (auto split: if_splits)

lemma ci_prefix_suffix: "ci_prefix p s = Some r \<Longrightarrow> r = drop (length p) s"
  by (induction p s rule: ci_prefix.induct) (auto split: if_splits)

lemma match_alt_suffix: "match_alt ps s = Some r \<Longrightarrow> \<exists>n. r = drop n s"
  by (induction ps) (auto split: option.splits dest: ci_prefix_suffix)

lemma sub_phrases_subset: "set (sub_phrases s) \<subseteq> set s"
proof (induction s rule: sub_phrases.induct)
  case 1
  show ?case by simp
next
  case (2 c cs)
  show ?case
  proof (cases "match_alt phrases (c # cs)")
    case None
    with 2 show ?thesis by auto
  next
    case (Some r)
    then obtain n where "r = drop n (c # cs)" using match_alt_suffix by blast
    then have "set r \<subseteq> set (c # cs)" using set_drop_subset [of n "c # cs"] by simp
    with 2 Some show ?thesis by auto
  qed
qed

lemma strip_subset: "set (strip s) \<subseteq> set s"
proof -
  have "set (dropWhile is_space (rev (dropWhile is_space s))) \<subseteq> set (rev (dropWhile is_space s))"
    by (rule set_dropWhileD [THEN subsetI]) 
  also have "\<dots> \<subseteq> set s" using set_dropWhileD by fastforce
  finally show ?thesis by (simp add: strip_def)
qed

lemma clean_text_chars: "c \<in> set (clean_text t) \<Longrightarrow> is_space c \<Longrightarrow> c = sp"
  using strip_subset sub_phrases_subset sub_ws_chars
  by (fastforce simp: clean_text_def split: if_splits)

lemma sub_blank_id: "nl \<notin> set s \<Longrightarrow> sub_blank s = s"
  by (induction s) auto

lemma sub_ws_id:
  "\<forall>c\<in>set s. is_space c \<longrightarrow> c = sp \<Longrightarrow> \<not> adjacent_spaces s \<Longrightarrow> sub_ws s = s"
proof (induction s rule: adjacent_spaces.induct)
  case (1 a b cs)
  then have rest: "sub_ws (b # cs) = b # cs" by simp
  show ?case
  proof (cases "is_space a")
    case True
    with 1 have "a = sp" "\<not> is_space b" by auto
    with True rest show ?thesis by (subst sub_ws.simps(2)) (simp del: sub_ws.simps)
  next
    case False
    with rest show ?thesis by (subst sub_ws.simps(2)) (simp del: sub_ws.simps)
  qed
qed auto

lemma sub_phrases_id: "\<not> search_alt phrases s \<Longrightarrow> sub_phrases s = s"
  by (induction s) (auto split: option.splits)

lemma strip_id: "s = [] \<or> (\<not> is_space (hd s) \<and> \<not> is_space (last s)) \<Longrightarrow> strip s = s"
proof (cases s)
  case Nil
  then show ?thesis by (simp add: strip_def)
next
  case (Cons a as)
  assume "s = [] \<or> (\<not> is_space (hd s) \<and> \<not> is_space (last s))"
  with Cons have h: "\<not> is_space (hd s)" and l: "\<not> is_space (last s)" by auto
  from h Cons have 1: "dropWhile is_space s = s" by simp
  from l Cons have 2: "dropWhile is_space (rev s) = rev s"
    by (metis dropWhile.simps(2) hd_rev list.collapse list.distinct(1) rev_is_Nil_conv)
  show ?thesis by (simp add: strip_def 1 2)
qed

lemma strip_ends: "strip s = [] \<or> (\<not> is_space (hd (strip s)) \<and> \<not> is_space (last (strip s)))"
proof -
  let ?a = "dropWhile is_space s"
  let ?b = "dropWhile is_space (rev ?a)"
  show ?thesis
  proof (cases "?b = []")
    case True
    then show ?thesis by (simp add: strip_def)
  next
    case False
    then have "\<not> is_space (hd ?b)" by (rule hd_dropWhile)
    with False have lastok: "\<not> is_space (last (rev ?b))" using last_rev [of ?b] by metis
    from False have ane: "?a \<noteq> []" by (metis dropWhile.simps(1) rev.simps(1))
    then have ha: "\<not> is_space (hd ?a)" by (rule hd_dropWhile)
    have "rev ?a = takeWhile is_space (rev ?a) @ ?b" by simp
    then have "rev (rev ?a) = rev (takeWhile is_space (rev ?a) @ ?b)" by (rule arg_cong)
    then have "?a = rev ?b @ rev (takeWhile is_space (rev ?a))" by (simp only: rev_rev_ident rev_append)
    then have "hd ?a = hd (rev ?b @ rev (takeWhile is_space (rev ?a)))" by (rule arg_cong)
    with False have "hd ?a = hd (rev ?b)" using hd_append2 [of "rev ?b"] by (metis rev_is_Nil_conv)
    with ha lastok False show ?thesis by (simp add: strip_def)
  qed
qed

lemma sub_ws_length: "length (sub_ws s) \<le> length s"
proof (induction s rule: sub_ws.induct)
  case 1
  show ?case by simp
next
  case (2 c cs)
  show ?case
  proof (cases "is_space c")
    case True
    with 2 have "length (sub_ws (dropWhile is_space cs)) \<le> length (dropWhile is_space cs)" by simp
    also have "\<dots> \<le> length cs" by (rule length_dropWhile_le)
    finally show ?thesis using True by simp
  next
    case False
    with 2 show ?thesis by simp
  qed
qed

lemma adjacent_spaces_Cons:
  "adjacent_spaces (c # cs) \<longleftrightarrow> (is_space c \<and> cs \<noteq> [] \<and> is_space (hd cs)) \<or> adjacent_spaces cs"
  by (cases cs) auto

lemma sub_ws_shrinks: "adjacent_spaces s \<Longrightarrow> length (sub_ws s) < length s"
proof (induction s rule: sub_ws.induct)
  case 1
  then show ?case by simp
next
  case (2 c cs)
  let ?d = "dropWhile is_space cs"
  show ?case
  proof (cases "is_space c")
    case True
    have le: "length (sub_ws ?d) \<le> length ?d" by (rule sub_ws_length)
    show ?thesis
    proof (cases "cs \<noteq> [] \<and> is_space (hd cs)")
      case True
      then have "length ?d < length cs"
        by (cases cs) (auto simp: le_imp_less_Suc length_dropWhile_le)
      with le \<open>is_space c\<close> show ?thesis by simp
    next
      case False
      then have d: "?d = cs" by (cases cs) auto
      from False "2.prems" have "adjacent_spaces cs" by (auto simp: adjacent_spaces_Cons)
      with d 2(1) \<open>is_space c\<close> have "length (sub_ws ?d) < length cs" by simp
      with \<open>is_space c\<close> show ?thesis by simp
    qed
  next
    case False
    with "2.prems" have "adjacent_spaces cs" by (auto simp: adjacent_spaces_Cons)
    with 2(2) False show ?thesis by simp
  qed
qed

lemma sub_phrases_length: "length (sub_phrases s) \<le> length s"
proof (induction s rule: sub_phrases.induct)
  case 1
  show ?case by simp
next
  case (2 c cs)
  show ?case
  proof (cases "match_alt phrases (c # cs)")
    case None
    with 2 show ?thesis by simp
  next
    case (Some r)
    with 2 have "length (sub_phrases r) \<le> length r" by simp
    also have "\<dots> \<le> length cs" using Some by (rule match_phrases_length)
    finally show ?thesis using Some by simp
  qed
qed

lemma sub_phrases_shrinks: "search_alt phrases s \<Longrightarrow> length (sub_phrases s) < length s"
proof (induction s)
  case Nil
  then show ?case by (simp add: phrases_def u_def)
next
  case (Cons c cs)
  show ?case
  proof (cases "match_alt phrases (c # cs)")
    case None
    with Cons show ?thesis by simp
  next
    case (Some r)
    have "length (sub_phrases r) \<le> length r" by (rule sub_phrases_length)
    also have "\<dots> \<le> length cs" using Some by (rule match_phrases_length)
    finally show ?thesis using Some by simp
  qed
qed

lemma strip_length: "length (strip s) \<le> length s"
proof -
  have "length (strip s) \<le> length (dropWhile is_space s)"
    using length_dropWhile_le [of is_space "rev (dropWhile is_space s)"] by (simp add: strip_def)
  also have "\<dots> \<le> length s" by (rule length_dropWhile_le)
  finally show ?thesis .
qed

lemma clean_text_ends:
  "clean_text t = [] \<or> (\<not> is_space (hd (clean_text t)) \<and> \<not> is_space (last (clean_text t)))"
  using strip_ends by (simp add: clean_text_def)

lemma normal_fixed:
  assumes ch: "\<forall>c\<in>set s. is_space c \<longrightarrow> c = sp"
    and ends: "s = [] \<or> (\<not> is_space (hd s) \<and> \<not> is_space (last s))"
  shows "clean_text s = s \<longleftrightarrow> \<not> adjacent_spaces s \<and> \<not> search_alt phrases s"
proof (cases "s = []")
  case True
  have "\<not> search_alt phrases []" by (simp add: phrases_def u_def)
  with True show ?thesis by (simp add: clean_text_def)
next
  case False
  have "is_space nl" "nl \<noteq> sp" by (simp_all add: is_space_def nl_def sp_def)
  with ch have "nl \<notin> set s" by blast
  then have b: "sub_blank s = s" by (rule sub_blank_id)
  with False have ct: "clean_text s = strip (sub_phrases (sub_ws s))" by (simp add: clean_text_def)
  show ?thesis
  proof
    assume fx: "clean_text s = s"
    have chain: "length (clean_text s) \<le> length (sub_phrases (sub_ws s))"
      unfolding ct by (rule strip_length)
    show "\<not> adjacent_spaces s \<and> \<not> search_alt phrases s"
    proof (intro conjI notI)
      assume "adjacent_spaces s"
      then have "length (sub_ws s) < length s" by (rule sub_ws_shrinks)
      with chain sub_phrases_length [of "sub_ws s"] fx show False by simp
    next
      assume sa: "search_alt phrases s"
      show False
      proof (cases "adjacent_spaces s")
        case True
        then have "length (sub_ws s) < length s" by (rule sub_ws_shrinks)
        with chain sub_phrases_length [of "sub_ws s"] fx show False by simp
      next
        case False
        with ch have "sub_ws s = s" by (rule sub_ws_id)
        with sa chain sub_phrases_shrinks [of s] fx show False by simp
      qed
    qed
  next
    assume a: "\<not> adjacent_spaces s \<and> \<not> search_alt phrases s"
    with ch have "sub_ws s = s" by (simp add: sub_ws_id)
    moreover from a have "sub_phrases s = s" by (simp add: sub_phrases_id)
    moreover from ends have "strip s = s" by (rule strip_id)
    ultimately show "clean_text s = s" using ct by simp
  qed
qed

lemmas text_eval = clean_text_def strip_def phrases_def u_def is_space_def ci_eq_def
  ascii_lower_def sp_def nl_def match_blank_def Let_def

text \<open>
  Claim C2.  The normalizer is said to turn every whitespace run holding two or more
  newlines into one blank line.  The first substitution writes that blank line, and the
  second one, which replaces every whitespace run by a space, takes it away again:
  on \<^verbatim>\<open>"a\n\nb"\<close> the normalizer returns \<^verbatim>\<open>"a b"\<close>, not \<^verbatim>\<open>"a\n\nb"\<close>.
\<close>

theorem clean_text_blank_line_lost:
  "clean_text (u ''a'' @ [nl, nl] @ u ''b'') = u ''a b''"
  by (simp add: text_eval)

text \<open>
  Claim C3.  The normalizer is said to be idempotent.  It is not: removing a phrase leaves
  the two spaces around it next to each other, and only a second run collapses them.
\<close>

theorem clean_text_not_idempotent:
  "clean_text (clean_text (u ''a read more b'')) \<noteq> clean_text (u ''a read more b'')"
  by (simp add: text_eval)

text \<open>
  Claim C3, as amended.  The output of the normalizer is a fixed point of the normalizer
  exactly when it holds neither two adjacent spaces nor one of the four phrases (in any
  letter case): these are the only two things a second run can still change.
\<close>

theorem clean_text_fixed_point_iff:
  "clean_text (clean_text t) = clean_text t \<longleftrightarrow>
     \<not> adjacent_spaces (clean_text t) \<and> \<not> search_alt phrases (clean_text t)"
proof (rule normal_fixed)
  show "\<forall>c\<in>set (clean_text t). is_space c \<longrightarrow> c = sp"
    using clean_text_chars by blast
  show "clean_text t = [] \<or> (\<not> is_space (hd (clean_text t)) \<and> \<not> is_space (last (clean_text t)))"
    by (rule clean_text_ends)
qed

theorem clean_text_fixed_point_iff_witness:
  "clean_text (clean_text (u ''Read  on'')) = clean_text (u ''Read  on'') \<and>
   clean_text (u ''Read  on'') = u ''Read on''"
  using clean_text_fixed_point_iff [of "u ''Read  on''"] by (simp add: text_eval)

section \<open>Properties of the content locator\<close>

lemma doc_after_Nil: "doc_after d [] = d"
  by (simp add: doc_after_def)

lemma doc_after_Cons: "doc_after d (sel # sels) = doc_after (fst (tier d sel)) sels"
  by (simp add: doc_after_def)

lemma accepted_iff: "accepted t \<longleftrightarrow> length t > 100"
  by (auto simp: accepted_def)

lemma tier_elems_accepted: "t \<in> set (snd (tier_elems d ps)) \<Longrightarrow> length t > 100"
proof (induction ps arbitrary: d)
  case Nil
  then show ?case by simp
next
  case (Cons p ps)
  obtain d2 rest where r: "tier_elems (strip_unwanted d p) ps = (d2, rest)"
    by (cases "tier_elems (strip_unwanted d p) ps")
  with Cons.IH [of "strip_unwanted d p"] have "t \<in> set rest \<Longrightarrow> length t > 100" by simp
  with Cons.prems r show ?case by (auto simp: Let_def accepted_def split: if_splits)
qed

lemma cascade_fall_through:
  "snd (tier d sel) = [] \<Longrightarrow> cascade d (sel # sels) = cascade (fst (tier d sel)) sels"
  by (cases "tier d sel") simp

lemma cascade_stop:
  "snd (tier d sel) \<noteq> [] \<Longrightarrow> cascade d (sel # sels) = tier d sel"
  by (cases "tier d sel") simp

lemma cascade_empty_iff:
  "snd (cascade d sels) = [] \<longleftrightarrow>
     (\<forall>i<length sels. snd (tier (doc_after d (take i sels)) (sels ! i)) = [])"
proof (induction sels arbitrary: d)
  case Nil
  show ?case by simp
next
  case (Cons sel sels)
  show ?case
  proof (cases "snd (tier d sel) = []")
    case True
    have "(\<forall>i<length (sel # sels). snd (tier (doc_after d (take i (sel # sels))) ((sel # sels) ! i)) = [])
        \<longleftrightarrow> (\<forall>i<length sels. snd (tier (doc_after (fst (tier d sel)) (take i sels)) (sels ! i)) = [])"
      using True by (auto simp: All_less_Suc2 doc_after_Nil doc_after_Cons)
    with True Cons [of "fst (tier d sel)"] show ?thesis
      by (simp only: cascade_fall_through)
  next
    case False
    then have "snd (cascade d (sel # sels)) \<noteq> []" by (simp del: cascade.simps add: cascade_stop)
    moreover from False have "\<not> (\<forall>i<length (sel # sels). snd (tier (doc_after d (take i (sel # sels))) ((sel # sels) ! i)) = [])"
      by (auto intro!: exI [of _ 0] simp: doc_after_Nil)
    ultimately show ?thesis by blast
  qed
qed

lemma cascade_first:
  "snd (cascade d sels) \<noteq> [] \<Longrightarrow>
     \<exists>i<length sels.
        (\<forall>j<i. snd (tier (doc_after d (take j sels)) (sels ! j)) = []) \<and>
        cascade d sels = tier (doc_after d (take i sels)) (sels ! i)"
proof (induction sels arbitrary: d)
  case Nil
  then show ?case by simp
next
  case (Cons sel sels)
  show ?case
  proof (cases "snd (tier d sel) = []")
    case True
    with Cons.prems have "snd (cascade (fst (tier d sel)) sels) \<noteq> []"
      by (simp only: cascade_fall_through not_False_eq_True)
    from Cons.IH [OF this] obtain i where i: "i < length sels"
      and before: "\<forall>j<i. snd (tier (doc_after (fst (tier d sel)) (take j sels)) (sels ! j)) = []"
      and at: "cascade (fst (tier d sel)) sels = tier (doc_after (fst (tier d sel)) (take i sels)) (sels ! i)"
      by blast
    have "\<forall>j<Suc i. snd (tier (doc_after d (take j (sel # sels))) ((sel # sels) ! j)) = []"
      using True before by (auto simp: All_less_Suc2 doc_after_Nil doc_after_Cons)
    moreover have "cascade d (sel # sels) = tier (doc_after d (take (Suc i) (sel # sels))) ((sel # sels) ! Suc i)"
      using at True by (simp only: cascade_fall_through) (simp add: doc_after_Cons)
    ultimately show ?thesis using i by (intro exI [of _ "Suc i"]) simp
  next
    case False
    then have "cascade d (sel # sels) = tier (doc_after d (take 0 (sel # sels))) ((sel # sels) ! 0)"
      by (simp del: cascade.simps add: cascade_stop doc_after_Nil)
    then show ?thesis by (intro exI [of _ 0]) simp
  qed
qed

lemma sub_ws_nospace: "\<forall>c\<in>set s. \<not> is_space c \<Longrightarrow> sub_ws s = s"
  by (induction s) auto

lemma clean_text_plain:
  assumes "\<forall>c\<in>set s. \<not> is_space c \<and> \<not> ci_eq 99 c \<and> \<not> ci_eq 114 c \<and> \<not> ci_eq 109 c \<and> \<not> ci_eq 97 c"
  shows "clean_text s = s"
proof -
  have "is_space nl" by (simp add: is_space_def nl_def)
  with assms have "nl \<notin> set s" by blast
  then have 1: "sub_blank s = s" by (rule sub_blank_id)
  from assms have 2: "sub_ws s = s" by (simp add: sub_ws_nospace)
  from assms have "\<not> search_alt phrases s"
    by (induction s) (auto simp: phrases_def u_def)
  then have 3: "sub_phrases s = s" by (rule sub_phrases_id)
  from assms have "s = [] \<or> (\<not> is_space (hd s) \<and> \<not> is_space (last s))"
    using hd_in_set [of s] last_in_set [of s] by blast
  then have 4: "strip s = s" by (rule strip_id)
  show ?thesis by (simp add: clean_text_def 1 2 3 4)
qed

lemma clean_text_x: "clean_text (replicate n 120) = replicate n 120"
  by (rule clean_text_plain) (simp add: is_space_def ci_eq_def ascii_lower_def)

lemma clean_text_y: "clean_text (replicate n 121) = replicate n 121"
  by (rule clean_text_plain) (simp add: is_space_def ci_eq_def ascii_lower_def)

lemma clean_text_Nil: "clean_text [] = []"
  by (simp add: clean_text_def)

lemmas tree_eval = clean_text_Nil interesting_string_types_def select_def select_one_def soup_find_def all_items_def items_under_def
  sel_match_def find_all_names_def strip_unwanted_def decompose_all_def tier_def text_at_def
  unwanted_def u_def classes_def accepted_def Let_def doc_def elem_def
  clean_text_x clean_text_y long_x_def long_y_def

lemma cascade_accepted: "t \<in> set (snd (cascade d sels)) \<Longrightarrow> length t > 100"
proof -
  assume t: "t \<in> set (snd (cascade d sels))"
  then have "snd (cascade d sels) \<noteq> []" by auto
  from cascade_first [OF this] obtain i where
    "cascade d sels = tier (doc_after d (take i sels)) (sels ! i)" by blast
  with t show ?thesis by (auto simp: tier_def dest: tier_elems_accepted)
qed

lemma tier_elems_texts:
  "snd (tier_elems d ps) = filter (\<lambda>t. 100 < length t) (tier_texts d ps)"
proof (induction ps arbitrary: d)
  case Nil
  show ?case by simp
next
  case (Cons p ps)
  obtain d2 rest where r: "tier_elems (strip_unwanted d p) ps = (d2, rest)"
    by (cases "tier_elems (strip_unwanted d p) ps")
  with Cons [of "strip_unwanted d p"]
  have "rest = filter (\<lambda>t. 100 < length t) (tier_texts (strip_unwanted d p) ps)" by simp
  with r show ?case by (auto simp: Let_def accepted_def)
qed

lemma tier_elems_doc: "fst (tier_elems d ps) = fold (\<lambda>p d. strip_unwanted d p) ps d"
proof (induction ps arbitrary: d)
  case Nil
  show ?case by simp
next
  case (Cons p ps)
  obtain d2 rest where r: "tier_elems (strip_unwanted d p) ps = (d2, rest)"
    by (cases "tier_elems (strip_unwanted d p) ps")
  with Cons [of "strip_unwanted d p"] show ?case by (simp add: Let_def)
qed

lemma tier_empty_iff:
  "snd (tier d sel) = [] \<longleftrightarrow> (\<forall>t\<in>set (tier_texts d (select d sel)). length t \<le> 100)"
  by (auto simp: tier_def tier_elems_texts filter_empty_conv not_less)

text \<open>
  Claim C4, as amended.  Every element a tier matches is read once the script, style,
  iframe, noscript and form subtrees in it are deleted, and its normalized text is accepted
  exactly when it is longer than 100 characters: the texts of a tier are the normalized
  texts of its elements that are longer than 100, and the tier leaves the document with
  these subtrees deleted whether it accepts or not.  A tier all of whose elements give a
  normalized text of 100 characters or less hands the document to the next tier; a tier
  with a longer text ends the cascade.  So the cascade comes back empty exactly when, for
  every tier, on the document as the tiers before it left it, every element gives 100
  characters or less.
\<close>

theorem content_locator_fall_through:
  "(accepted t \<longleftrightarrow> 100 < length t) \<and>
   snd (tier d sel) = filter (\<lambda>t. 100 < length t) (tier_texts d (select d sel)) \<and>
   fst (tier d sel) = fold (\<lambda>p d. strip_unwanted d p) (select d sel) d \<and>
   ((\<forall>t\<in>set (tier_texts d (select d sel)). length t \<le> 100) \<longrightarrow>
      cascade d (sel # sels) = cascade (fst (tier d sel)) sels) \<and>
   ((\<exists>t\<in>set (tier_texts d (select d sel)). 100 < length t) \<longrightarrow>
      cascade d (sel # sels) = tier d sel) \<and>
   (\<forall>t\<in>set (snd (cascade d sels)). 100 < length t) \<and>
   (snd (cascade d sels) = [] \<longleftrightarrow>
      (\<forall>i<length sels.
         \<forall>t\<in>set (tier_texts (doc_after d (take i sels))
                    (select (doc_after d (take i sels)) (sels ! i))). length t \<le> 100))"
proof (intro conjI impI)
  show "accepted t \<longleftrightarrow> 100 < length t" by (rule accepted_iff)
  show "snd (tier d sel) = filter (\<lambda>t. 100 < length t) (tier_texts d (select d sel))"
    by (simp add: tier_def tier_elems_texts)
  show "fst (tier d sel) = fold (\<lambda>p d. strip_unwanted d p) (select d sel) d"
    by (simp add: tier_def tier_elems_doc)
  show "\<forall>t\<in>set (snd (cascade d sels)). 100 < length t"
    using cascade_accepted by blast
  show "snd (cascade d sels) = [] \<longleftrightarrow>
      (\<forall>i<length sels.
         \<forall>t\<in>set (tier_texts (doc_after d (take i sels))
                    (select (doc_after d (take i sels)) (sels ! i))). length t \<le> 100)"
    unfolding cascade_empty_iff tier_empty_iff ..
next
  assume "\<forall>t\<in>set (tier_texts d (select d sel)). length t \<le> 100"
  then have "snd (tier d sel) = []" by (simp add: tier_empty_iff)
  then show "cascade d (sel # sels) = cascade (fst (tier d sel)) sels"
    by (rule cascade_fall_through)
next
  assume "\<exists>t\<in>set (tier_texts d (select d sel)). 100 < length t"
  then have "snd (tier d sel) \<noteq> []" by (auto simp: tier_empty_iff not_le)
  then show "cascade d (sel # sels) = tier d sel" by (rule cascade_stop)
qed

lemma d4w_texts:
  "tier_texts d4w (select d4w [ByAttr (u ''itemprop'') (u ''articleBody'')]) = [replicate 80 120]"
  "tier_texts d4w (select d4w [ByTag (u ''main'')]) = [replicate 500 121]"
  "fst (tier d4w [ByAttr (u ''itemprop'') (u ''articleBody'')]) = d4w"
  "snd (cascade d4w content_selectors) = [replicate 500 121]"
  by (simp_all add: d4w_def content_selectors_def tree_eval)

lemma d100_texts:
  "tier_texts d100 (select d100 [ByTag (u ''main'')]) = [replicate 100 120]"
  "tier_texts d9 (select d9 [ByTag (u ''main'')]) = [replicate 101 120]"
  "snd (cascade d100 content_selectors) = []"
  "snd (cascade d9 content_selectors) = [replicate 101 120]"
  by (simp_all add: d100_def d9_def content_selectors_def tree_eval)

theorem content_locator_fall_through_witness:
  "tier_texts d4w (select d4w [ByAttr (u ''itemprop'') (u ''articleBody'')]) = [replicate 80 120] \<and>
   snd (tier d4w [ByAttr (u ''itemprop'') (u ''articleBody'')]) = [] \<and>
   cascade d4w [[ByAttr (u ''itemprop'') (u ''articleBody'')], [ByTag (u ''main'')]] =
     cascade d4w [[ByTag (u ''main'')]] \<and>
   tier_texts d4w (select d4w [ByTag (u ''main'')]) = [replicate 500 121] \<and>
   snd (tier d4w [ByTag (u ''main'')]) = [replicate 500 121] \<and>
   cascade d4w [[ByTag (u ''main'')]] = tier d4w [ByTag (u ''main'')] \<and>
   snd (cascade d4w content_selectors) = [replicate 500 121] \<and>
   tier_texts d100 (select d100 [ByTag (u ''main'')]) = [replicate 100 120] \<and>
   snd (tier d100 [ByTag (u ''main'')]) = [] \<and>
   snd (cascade d100 content_selectors) = [] \<and>
   tier_texts d9 (select d9 [ByTag (u ''main'')]) = [replicate 101 120] \<and>
   snd (tier d9 [ByTag (u ''main'')]) = [replicate 101 120] \<and>
   snd (cascade d9 content_selectors) = [replicate 101 120]"
proof -
  note a = content_locator_fall_through [where d = d4w
      and sel = "[ByAttr (u ''itemprop'') (u ''articleBody'')]" and sels = "[[ByTag (u ''main'')]]"]
  note b = content_locator_fall_through [where d = d4w and sel = "[ByTag (u ''main'')]"
      and sels = "[]"]
  note c = content_locator_fall_through [where d = d100 and sel = "[ByTag (u ''main'')]"]
  note e = content_locator_fall_through [where d = d9 and sel = "[ByTag (u ''main'')]"]
  from a have a1: "snd (tier d4w [ByAttr (u ''itemprop'') (u ''articleBody'')]) = []"
    by (simp add: d4w_texts)
  from a have "cascade d4w [[ByAttr (u ''itemprop'') (u ''articleBody'')], [ByTag (u ''main'')]] =
     cascade (fst (tier d4w [ByAttr (u ''itemprop'') (u ''articleBody'')])) [[ByTag (u ''main'')]]"
    by (simp add: d4w_texts del: cascade.simps)
  then have a2: "cascade d4w [[ByAttr (u ''itemprop'') (u ''articleBody'')], [ByTag (u ''main'')]] =
     cascade d4w [[ByTag (u ''main'')]]"
    by (simp add: d4w_texts del: cascade.simps)
  from b have b1: "snd (tier d4w [ByTag (u ''main'')]) = [replicate 500 121]"
    by (simp add: d4w_texts)
  from b have b2: "cascade d4w [[ByTag (u ''main'')]] = tier d4w [ByTag (u ''main'')]"
    by (simp add: d4w_texts del: cascade.simps)
  from c have c1: "snd (tier d100 [ByTag (u ''main'')]) = []" by (simp add: d100_texts)
  from e have e1: "snd (tier d9 [ByTag (u ''main'')]) = [replicate 101 120]"
    by (simp add: d100_texts)
  from a1 a2 b1 b2 c1 e1 show ?thesis by (simp add: d4w_texts d100_texts del: cascade.simps)
qed


text \<open>
  Claim C4, as stated, fails.  In \<open>d4\<close> the tier \<^verbatim>\<open>main\<close> taken alone accepts a text of 101
  characters, and yet the cascade returns nothing: the first tier matches the
  \<^verbatim>\<open>article\<close>, deletes the form in it and \<^verbatim>\<open>main\<close> with the form, and accepts nothing.
\<close>

theorem content_locator_empty_despite_lower_tier:
  "content_selectors ! 15 = [ByTag (u ''main'')] \<and>
   snd (tier d4 [ByTag (u ''main'')]) = [long_x] \<and>
   snd (cascade d4 content_selectors) = []"
  by (simp add: d4_def content_selectors_def tree_eval)

text \<open>
  Claim C5, as amended.  When the cascade finds content, there is a first tier that accepts
  a text on the document as the tiers before it left it; all tiers before it accepted
  nothing; the texts of the call are the texts of that tier alone, no later tier is run,
  and the text of the result is their join, normalized.
\<close>

theorem first_tier_wins:
  assumes "snd (cascade soup content_selectors) \<noteq> []"
  shows "\<exists>i<length content_selectors.
           (\<forall>j<i. snd (tier (doc_after soup (take j content_selectors)) (content_selectors ! j)) = []) \<and>
           (\<exists>d1 texts a.
              tier (doc_after soup (take i content_selectors)) (content_selectors ! i) = (d1, texts) \<and>
              texts \<noteq> [] \<and>
              locate_content env url language html soup = Inr (d1, texts) \<and>
              assemble url use_proxy d1 texts = Extracted a \<and>
              art_text a = clean_text (join [nl, nl] texts))"
proof -
  from cascade_first [OF assms] obtain i where i: "i < length content_selectors"
    and before: "\<forall>j<i. snd (tier (doc_after soup (take j content_selectors)) (content_selectors ! j)) = []"
    and at: "cascade soup content_selectors =
             tier (doc_after soup (take i content_selectors)) (content_selectors ! i)"
    by blast
  obtain d1 texts where t: "tier (doc_after soup (take i content_selectors)) (content_selectors ! i) = (d1, texts)"
    by (cases "tier (doc_after soup (take i content_selectors)) (content_selectors ! i)")
  with at assms have ne: "texts \<noteq> []" by simp
  from at t ne have loc: "locate_content env url language html soup = Inr (d1, texts)"
    by (simp add: locate_content_def)
  from ne have "\<exists>a. assemble url use_proxy d1 texts = Extracted a \<and>
      art_text a = clean_text (join [nl, nl] texts)"
    by (simp add: assemble_def)
  with i before t ne loc show ?thesis by blast
qed

lemma d5w_tiers:
  "snd (cascade d5w content_selectors) = [long_x]"
  "snd (tier d5w [ByTag (u ''main'')]) = [long_y]"
  by (simp_all add: d5w_def content_selectors_def tree_eval)

theorem first_tier_wins_witness:
  "snd (cascade d5w content_selectors) = [long_x] \<and>
   snd (tier d5w [ByTag (u ''main'')]) = [long_y] \<and>
   (\<exists>i<length content_selectors. \<exists>d1 texts a.
      tier (doc_after d5w (take i content_selectors)) (content_selectors ! i) = (d1, texts) \<and>
      locate_content env0 (u ''http://a.b'') (u ''en'') [] d5w = Inr (d1, texts) \<and>
      assemble (u ''http://a.b'') (u ''zyte'') d1 texts = Extracted a \<and>
      art_text a = clean_text (join [nl, nl] texts))"
proof -
  have ne: "snd (cascade d5w content_selectors) \<noteq> []" by (simp add: d5w_tiers)
  from first_tier_wins [OF ne, of env0 "u ''http://a.b''" "u ''en''" "[]" "u ''zyte''"] d5w_tiers
  show ?thesis by blast
qed

text \<open>
  Claim C5, as stated, fails.  In \<open>d5\<close> the tiers \<^verbatim>\<open>main\<close> and \<^verbatim>\<open>#main-content\<close> each hold a
  text of 101 characters and no earlier tier holds one, and the result is the text of the
  later of the two: the tier \<^verbatim>\<open>article\<close>, which accepts nothing, has deleted \<^verbatim>\<open>main\<close>.
\<close>

theorem later_tier_wins_after_cleanup:
  "map (\<lambda>sel. snd (tier d5 sel)) content_selectors =
     [[], [], [], [], [], [], [], [], [], [], [], [], [], [], [], [long_x], [long_y], []] \<and>
   snd (cascade d5 content_selectors) = [long_y]"
  by (simp add: d5_def content_selectors_def tree_eval)

section \<open>Properties of the noise stripper\<close>

lemma decompose_dead: "\<not> live_at d p \<Longrightarrow> \<not> live_at (decompose d q) p"
proof (induction d q arbitrary: p rule: decompose.induct)
  case (1 b s q)
  then show ?case by simp
next
  case (2 g nm as ks)
  then show ?case by (cases p) simp_all
next
  case (3 g nm as ks i q)
  show ?case
  proof (cases p)
    case Nil
    with 3 show ?thesis by simp
  next
    case (Cons j p')
    with 3 show ?thesis by (cases "j = i") auto
  qed
qed

lemma decompose_kills:
  "node_at d p = Some n \<Longrightarrow> is_tag n \<Longrightarrow> \<not> live_at (decompose d p) p"
proof (induction d p rule: decompose.induct)
  case (1 b s p)
  then show ?case by (cases p) auto
next
  case (2 g nm as ks)
  show ?case by simp
next
  case (3 g nm as ks i p)
  then show ?case by (auto split: if_splits)
qed

lemma walk_up_dead: "\<not> live_at d q \<Longrightarrow> \<not> live_at (walk_up d p) q"
proof (induction d p rule: walk_up.induct)
  case (1 d p)
  show ?case
  proof (cases "removable d p")
    case False
    with 1 show ?thesis by (simp add: walk_up.simps [of d p])
  next
    case True
    from "1.prems" have dead: "\<not> live_at (decompose d p) q" by (rule decompose_dead)
    show ?thesis
    proof (cases "p = []")
      case True
      with \<open>removable d p\<close> dead show ?thesis by (simp add: walk_up.simps [of d "[]"])
    next
      case False
      with \<open>removable d p\<close> "1.IH" dead have "\<not> live_at (walk_up (decompose d p) (butlast p)) q"
        by simp
      with \<open>removable d p\<close> False show ?thesis by (simp add: walk_up.simps [of d p])
    qed
  qed
qed

lemma removable_iff:
  "removable d p \<longleftrightarrow>
     (\<exists>n. node_at d p = Some n \<and> is_tag n \<and>
          tag_name n \<in> set (map u [''button'', ''a'', ''div'', ''section'']) \<and>
          length (text_at d p) < 1000)"
  by (auto simp: removable_def walk_tags_def split: option.splits)

lemma walk_up_removes: "removable d p \<Longrightarrow> \<not> live_at (walk_up d p) p"
proof -
  assume r: "removable d p"
  then obtain n where "node_at d p = Some n" "is_tag n"
    by (auto simp: removable_def split: option.splits)
  then have dead: "\<not> live_at (decompose d p) p" by (rule decompose_kills)
  show ?thesis
  proof (cases "p = []")
    case True
    with r dead show ?thesis by (simp add: walk_up.simps [of d "[]"])
  next
    case False
    from dead have "\<not> live_at (walk_up (decompose d p) (butlast p)) p" by (rule walk_up_dead)
    with r False show ?thesis by (simp add: walk_up.simps [of d p])
  qed
qed

lemmas walk_eval = removable_def walk_tags_def find_all_string_def walk_up.simps

lemma d6b_walk:
  "find_all_string d6b (u ''read more'') = [[0, 0]]"
  "removable d6b [0]"
  by (simp_all add: d6b_def walk_eval tree_eval ci_eq_def ascii_lower_def)

lemma d6s_walk:
  "find_all_string d6s (u ''read more'') = [[0, 0]]"
  "\<not> removable d6s [0]"
  "live_at d6s [0]"
  by (simp_all add: d6s_def walk_eval tree_eval ci_eq_def ascii_lower_def)

lemma decompose_all_append:
  "decompose_all d (ps @ qs) = decompose_all (decompose_all d ps) qs"
  by (simp add: decompose_all_def)

lemma all_removable_append:
  "all_removable d (ps @ qs) \<longleftrightarrow> all_removable d ps \<and> all_removable (decompose_all d ps) qs"
  by (induction ps arbitrary: d) (auto simp: decompose_all_def)

lemma walk_up_deletions: "\<exists>ps. all_removable d ps \<and> walk_up d p = decompose_all d ps"
proof (induction d p rule: walk_up.induct)
  case (1 d p)
  show ?case
  proof (cases "removable d p")
    case False
    then have "walk_up d p = decompose_all d []" by (simp add: walk_up.simps [of d p] decompose_all_def)
    then show ?thesis by (intro exI [of _ "[]"]) simp
  next
    case True
    show ?thesis
    proof (cases "p = []")
      case True
      with \<open>removable d p\<close> have "walk_up d p = decompose_all d [p]"
        by (simp add: walk_up.simps [of d "[]"] decompose_all_def)
      with \<open>removable d p\<close> show ?thesis by (intro exI [of _ "[p]"]) simp
    next
      case False
      with \<open>removable d p\<close> "1.IH" obtain ps where ps: "all_removable (decompose d p) ps"
        "walk_up (decompose d p) (butlast p) = decompose_all (decompose d p) ps" by blast
      from \<open>removable d p\<close> False have "walk_up d p = walk_up (decompose d p) (butlast p)"
        by (simp add: walk_up.simps [of d p])
      with ps have "walk_up d p = decompose_all d (p # ps)" by (simp add: decompose_all_def)
      with ps \<open>removable d p\<close> show ?thesis by (intro exI [of _ "p # ps"]) simp
    qed
  qed
qed

lemma walk_strings_deletions:
  "walk_strings d qs = Inr d' \<Longrightarrow> \<exists>ps. all_removable d ps \<and> d' = decompose_all d ps"
proof (induction qs arbitrary: d)
  case Nil
  then have "d' = decompose_all d []" by (simp add: decompose_all_def)
  then show ?case by (intro exI [of _ "[]"]) simp
next
  case (Cons q qs)
  then have w: "walk_strings (walk_up d (butlast q)) qs = Inr d'" by (simp split: if_splits)
  obtain ps where ps: "all_removable d ps" "walk_up d (butlast q) = decompose_all d ps"
    using walk_up_deletions by blast
  from Cons.IH [OF w] obtain rs where rs: "all_removable (walk_up d (butlast q)) rs"
    "d' = decompose_all (walk_up d (butlast q)) rs" by blast
  from ps rs have "all_removable d (ps @ rs)" "d' = decompose_all d (ps @ rs)"
    by (simp_all add: all_removable_append decompose_all_append)
  then show ?case by blast
qed

lemma pass_deletions:
  "strip_text_patterns d pats = Inr d' \<Longrightarrow> \<exists>ps. all_removable d ps \<and> d' = decompose_all d ps"
proof (induction pats arbitrary: d)
  case Nil
  then have "d' = decompose_all d []" by (simp add: decompose_all_def)
  then show ?case by (intro exI [of _ "[]"]) simp
next
  case (Cons pat pats)
  then obtain d1 where d1: "walk_strings d (find_all_string d pat) = Inr d1"
    "strip_text_patterns d1 pats = Inr d'" by (auto split: sum.splits)
  from walk_strings_deletions [OF d1(1)] obtain ps where ps: "all_removable d ps"
    "d1 = decompose_all d ps" by blast
  from Cons.IH [OF d1(2)] obtain rs where rs: "all_removable d1 rs" "d' = decompose_all d1 rs"
    by blast
  from ps rs have "all_removable d (ps @ rs)" "d' = decompose_all d (ps @ rs)"
    by (simp_all add: all_removable_append decompose_all_append)
  then show ?case by blast
qed

lemma node_at_decompose:
  "node_at d p = Some n \<Longrightarrow>
     \<exists>n'. node_at (decompose d a) p = Some n' \<and> is_tag n' = is_tag n \<and>
          tag_name n' = tag_name n \<and> (\<forall>c s. n = Str c s \<longrightarrow> n' = Str c s)"
proof (induction d a arbitrary: p rule: decompose.induct)
  case (1 b s a)
  then show ?case by simp
next
  case (2 g nm as ks)
  then show ?case by (cases p) (auto split: if_splits)
next
  case (3 g nm as ks i a)
  show ?case
  proof (cases p)
    case Nil
    with 3 show ?thesis by auto
  next
    case (Cons j p')
    show ?thesis
    proof (cases "j = i")
      case True
      with 3 Cons show ?thesis by (auto split: if_splits)
    next
      case False
      with 3 Cons show ?thesis by (auto split: if_splits)
    qed
  qed
qed

lemma concat_update_length:
  "i < length ks \<Longrightarrow> length (f k') \<le> length (f (ks ! i)) \<Longrightarrow>
     length (concat (map f (ks[i := k']))) \<le> length (concat (map f ks))"
proof (induction ks arbitrary: i)
  case Nil
  then show ?case by simp
next
  case (Cons k ks)
  then show ?case by (cases i) (auto simp: add_mono)
qed

lemma all_strings_decompose:
  "length (all_strings ts (decompose n a)) \<le> length (all_strings ts n)"
proof (induction n a rule: decompose.induct)
  case (1 b s p)
  show ?case by simp
next
  case (2 g nm as ks)
  show ?case by simp
next
  case (3 g nm as ks i p)
  then show ?case by (auto intro: concat_update_length)
qed

lemma get_text_decompose: "length (get_text (decompose n a)) \<le> length (get_text n)"
proof (cases n)
  case (Str c s)
  then show ?thesis by simp
next
  case (Tag g nm as ks)
  have "\<exists>g' ks'. decompose (Tag g nm as ks) a = Tag g' nm as ks'"
    by (cases a) auto
  then obtain g' ks' where e: "decompose (Tag g nm as ks) a = Tag g' nm as ks'" by blast
  have "length (all_strings (interesting_string_types nm) (decompose (Tag g nm as ks) a))
      \<le> length (all_strings (interesting_string_types nm) (Tag g nm as ks))"
    by (rule all_strings_decompose)
  with e Tag show ?thesis by (simp del: all_strings.simps decompose.simps)
qed

lemma text_at_Nil: "text_at d [] = get_text d"
  by (cases d) (auto simp: text_at_def)

lemma text_at_Cons:
  "text_at (Tag g nm as ks) (i # p) = (if \<not> g \<and> i < length ks then text_at (ks ! i) p else [])"
  by (auto simp: text_at_def)

lemma text_at_Str: "text_at (Str c s) (i # p) = []"
  by (simp add: text_at_def)

lemma text_at_decompose: "length (text_at (decompose d a) p) \<le> length (text_at d p)"
proof (induction d a arbitrary: p rule: decompose.induct)
  case (1 b s a)
  show ?case by simp
next
  case (2 g nm as ks)
  show ?case by (cases p) (simp_all add: text_at_Nil text_at_Cons)
next
  case (3 g nm as ks i a)
  show ?case
  proof (cases p)
    case Nil
    show ?thesis unfolding Nil text_at_Nil by (rule get_text_decompose)
  next
    case (Cons j p')
    show ?thesis
    proof (cases "i < length ks")
      case False
      then show ?thesis by simp
    next
      case True
      show ?thesis
      proof (cases "j = i")
        case True
        with 3 [of p'] \<open>i < length ks\<close> Cons show ?thesis by (simp add: text_at_Cons)
      next
        case False
        with \<open>i < length ks\<close> Cons show ?thesis by (simp add: text_at_Cons)
      qed
    qed
  qed
qed

lemma removable_decompose: "removable d p \<Longrightarrow> removable (decompose d a) p"
proof -
  assume r: "removable d p"
  then obtain n where n: "node_at d p = Some n" "is_tag n" "tag_name n \<in> set walk_tags"
    "length (text_at d p) < 1000"
    by (auto simp: removable_def split: option.splits)
  from node_at_decompose [OF n(1), of a] obtain n' where
    "node_at (decompose d a) p = Some n'" "is_tag n' = is_tag n" "tag_name n' = tag_name n"
    by blast
  moreover have "length (text_at (decompose d a) p) < 1000"
    using text_at_decompose [of d a p] n(4) by simp
  ultimately show ?thesis using n by (simp add: removable_def)
qed

lemma str_decompose:
  "node_at d q = Some (Str c s) \<Longrightarrow> node_at (decompose d a) q = Some (Str c s)"
  using node_at_decompose [of d q "Str c s" a] by auto

lemma removable_walk_up: "removable d p \<Longrightarrow> removable (walk_up d r) p"
proof (induction d r rule: walk_up.induct)
  case (1 d r)
  show ?case
  proof (cases "removable d r")
    case False
    with 1 show ?thesis by (simp add: walk_up.simps [of d r])
  next
    case True
    from "1.prems" have rd: "removable (decompose d r) p" by (rule removable_decompose)
    show ?thesis
    proof (cases "r = []")
      case True
      with \<open>removable d r\<close> rd show ?thesis by (simp add: walk_up.simps [of d "[]"])
    next
      case False
      with \<open>removable d r\<close> "1.IH" rd show ?thesis by (simp add: walk_up.simps [of d r])
    qed
  qed
qed

lemma str_walk_up:
  "node_at d q = Some (Str c s) \<Longrightarrow> node_at (walk_up d r) q = Some (Str c s)"
proof (induction d r rule: walk_up.induct)
  case (1 d r)
  show ?case
  proof (cases "removable d r")
    case False
    with 1 show ?thesis by (simp add: walk_up.simps [of d r])
  next
    case True
    from "1.prems" have rd: "node_at (decompose d r) q = Some (Str c s)" by (rule str_decompose)
    show ?thesis
    proof (cases "r = []")
      case True
      with \<open>removable d r\<close> rd show ?thesis by (simp add: walk_up.simps [of d "[]"])
    next
      case False
      with \<open>removable d r\<close> "1.IH" rd show ?thesis by (simp add: walk_up.simps [of d r])
    qed
  qed
qed

lemma walk_strings_dead:
  "\<not> live_at d p \<Longrightarrow> walk_strings d qs = Inr d' \<Longrightarrow> \<not> live_at d' p"
proof (induction qs arbitrary: d)
  case Nil
  then show ?case by simp
next
  case (Cons q qs)
  from Cons.prems(2) have w: "walk_strings (walk_up d (butlast q)) qs = Inr d'"
    by (simp split: if_splits)
  from Cons.prems(1) have "\<not> live_at (walk_up d (butlast q)) p" by (rule walk_up_dead)
  from Cons.IH [OF this w] show ?case .
qed

lemma walk_strings_keeps:
  "removable d p \<Longrightarrow> walk_strings d qs = Inr d' \<Longrightarrow> removable d' p"
  "node_at d q = Some (Str c s) \<Longrightarrow> walk_strings d qs = Inr d' \<Longrightarrow> node_at d' q = Some (Str c s)"
proof (induction qs arbitrary: d)
  case Nil
  { case 1 then show ?case by simp }
  { case 2 then show ?case by simp }
next
  case (Cons x qs)
  { case 1
    from 1(2) have w: "walk_strings (walk_up d (butlast x)) qs = Inr d'" by (simp split: if_splits)
    from 1(1) have "removable (walk_up d (butlast x)) p" by (rule removable_walk_up)
    from Cons.IH(1) [OF this w] show ?case . }
  { case 2
    from 2(2) have w: "walk_strings (walk_up d (butlast x)) qs = Inr d'" by (simp split: if_splits)
    from 2(1) have "node_at (walk_up d (butlast x)) q = Some (Str c s)" by (rule str_walk_up)
    from Cons.IH(2) [OF this w] show ?case . }
qed

lemma pass_dead:
  "\<not> live_at d p \<Longrightarrow> strip_text_patterns d pats = Inr d' \<Longrightarrow> \<not> live_at d' p"
proof (induction pats arbitrary: d)
  case Nil
  then show ?case by simp
next
  case (Cons pat pats)
  from Cons.prems(2) obtain d1 where d1: "walk_strings d (find_all_string d pat) = Inr d1"
    "strip_text_patterns d1 pats = Inr d'" by (auto split: sum.splits)
  from Cons.prems(1) d1(1) have "\<not> live_at d1 p" by (rule walk_strings_dead)
  from Cons.IH [OF this d1(2)] show ?case .
qed

lemma walk_strings_removes:
  "q \<in> set qs \<Longrightarrow> removable d (butlast q) \<Longrightarrow> walk_strings d qs = Inr d' \<Longrightarrow>
     \<not> live_at d' (butlast q)"
proof (induction qs arbitrary: d)
  case Nil
  then show ?case by simp
next
  case (Cons x qs)
  from Cons.prems(3) have w: "walk_strings (walk_up d (butlast x)) qs = Inr d'"
    by (simp split: if_splits)
  show ?case
  proof (cases "q = x")
    case True
    with Cons.prems(2) have "\<not> live_at (walk_up d (butlast x)) (butlast q)"
      by (simp add: walk_up_removes)
    then show ?thesis using w by (rule walk_strings_dead)
  next
    case False
    with Cons.prems(1) have "q \<in> set qs" by simp
    moreover from Cons.prems(2) have "removable (walk_up d (butlast x)) (butlast q)"
      by (rule removable_walk_up)
    ultimately show ?thesis using w by (rule Cons.IH)
  qed
qed

lemma items_mem:
  "live_at n q \<Longrightarrow> node_at n q = Some m \<Longrightarrow>
     \<exists>ancs'. (rev rp @ q, ancs', m) \<in> set (items rp ancs n)"
  "j < length ks \<Longrightarrow> live_at (ks ! j) q \<Longrightarrow> node_at (ks ! j) q = Some m \<Longrightarrow>
     \<exists>ancs'. (rev rp @ (i + j) # q, ancs', m) \<in> set (items_list rp ancs i ks)"
proof (induction rp ancs n and rp ancs i ks arbitrary: q m and q m j rule: items_items_list.induct)
  case (1 rp ancs b s)
  then show ?case by auto
next
  case (2 rp ancs g nm as ks)
  show ?case
  proof (cases q)
    case Nil
    with "2.prems" show ?thesis by auto
  next
    case (Cons j q')
    with "2.prems" have g: "\<not> g" and j: "j < length ks" and l: "live_at (ks ! j) q'"
      and n: "node_at (ks ! j) q' = Some m" by auto
    from "2.IH" [OF g j l n] obtain ancs' where
      "(rev rp @ (0 + j) # q', ancs', m) \<in> set (items_list rp (Tag g nm as ks # ancs) 0 ks)"
      by blast
    with g Cons show ?thesis by auto
  qed
next
  case (3 rp ancs i)
  then show ?case by simp
next
  case (4 rp ancs i k ks)
  show ?case
  proof (cases j)
    case 0
    with "4.prems" have "live_at k q" "node_at k q = Some m" by simp_all
    from "4.IH"(1) [OF this] obtain ancs' where
      "(rev (i # rp) @ q, ancs', m) \<in> set (items (i # rp) ancs k)" by blast
    with 0 show ?thesis by auto
  next
    case (Suc j')
    with "4.prems" have "j' < length ks" "live_at (ks ! j') q" "node_at (ks ! j') q = Some m"
      by simp_all
    from "4.IH"(2) [OF this] obtain ancs' where
      "(rev rp @ (Suc i + j') # q, ancs', m) \<in> set (items_list rp ancs (Suc i) ks)" by blast
    with Suc show ?thesis by auto
  qed
qed

lemma all_items_mem:
  assumes "live_at d q" "q \<noteq> []" "node_at d q = Some m"
  shows "\<exists>ancs. (q, ancs, m) \<in> set (all_items d)"
proof (cases d)
  case (Str c s)
  with assms show ?thesis by simp
next
  case (Tag g nm as ks)
  from assms(2) obtain j q' where q: "q = j # q'" by (cases q) auto
  with assms Tag have g: "\<not> g" and j: "j < length ks" and l: "live_at (ks ! j) q'"
    and n: "node_at (ks ! j) q' = Some m" by auto
  from items_mem(2) [OF j l n, of "[]" 0 "[d]"] obtain ancs' where
    "(q, ancs', m) \<in> set (items_list [] [d] 0 ks)" using q by auto
  with Tag g show ?thesis by (auto simp: all_items_def)
qed

lemma find_all_string_mem:
  assumes "live_at d q" "q \<noteq> []" "node_at d q = Some (Str c s)" "search_alt [pat] s"
  shows "q \<in> set (find_all_string d pat)"
proof -
  from all_items_mem [OF assms(1-3)] obtain ancs where
    "(q, ancs, Str c s) \<in> set (all_items d)" by blast
  with assms(4) show ?thesis by (force simp: find_all_string_def)
qed

lemma string_live:
  "node_at d q = Some (Str c s) \<Longrightarrow> q \<noteq> [] \<Longrightarrow> live_at d (butlast q) \<Longrightarrow> live_at d q"
proof (induction d q rule: node_at.induct)
  case (1 n)
  then show ?case by simp
next
  case (2 b s i p)
  then show ?case by simp
next
  case (3 g nm as ks i p)
  show ?case
  proof (cases "p = []")
    case True
    with "3.prems" show ?thesis by (auto split: if_splits)
  next
    case False
    with "3.prems" "3.IH" show ?thesis by (auto split: if_splits)
  qed
qed

lemma pass_keeps:
  "removable d p \<Longrightarrow> strip_text_patterns d pats = Inr d' \<Longrightarrow> removable d' p"
proof (induction pats arbitrary: d)
  case Nil
  then show ?case by simp
next
  case (Cons pat pats)
  from Cons.prems(2) obtain d1 where d1: "walk_strings d (find_all_string d pat) = Inr d1"
    "strip_text_patterns d1 pats = Inr d'" by (auto split: sum.splits)
  from Cons.prems(1) d1(1) have "removable d1 p" by (rule walk_strings_keeps(1))
  from Cons.IH [OF this d1(2)] show ?case .
qed

lemma pass_removes:
  "pat \<in> set pats \<Longrightarrow> node_at d q = Some (Str c s) \<Longrightarrow> search_alt [pat] s \<Longrightarrow> q \<noteq> [] \<Longrightarrow>
   removable d (butlast q) \<Longrightarrow> strip_text_patterns d pats = Inr d' \<Longrightarrow>
     \<not> live_at d' (butlast q)"
proof (induction pats arbitrary: d)
  case Nil
  then show ?case by simp
next
  case (Cons x pats)
  from Cons.prems(6) obtain d1 where d1: "walk_strings d (find_all_string d x) = Inr d1"
    "strip_text_patterns d1 pats = Inr d'" by (auto split: sum.splits)
  show ?case
  proof (cases "x = pat")
    case True
    have "\<not> live_at d1 (butlast q)"
    proof (cases "live_at d q")
      case True
      with Cons.prems \<open>x = pat\<close> have "q \<in> set (find_all_string d x)"
        by (simp add: find_all_string_mem)
      then show ?thesis using Cons.prems(5) d1(1) by (rule walk_strings_removes)
    next
      case False
      with Cons.prems(2,4) have "\<not> live_at d (butlast q)" using string_live by blast
      then show ?thesis using d1(1) by (rule walk_strings_dead)
    qed
    then show ?thesis using d1(2) by (rule pass_dead)
  next
    case False
    with Cons.prems(1) have "pat \<in> set pats" by simp
    moreover from Cons.prems(2) d1(1) have "node_at d1 q = Some (Str c s)"
      by (rule walk_strings_keeps(2))
    moreover from Cons.prems(5) d1(1) have "removable d1 (butlast q)"
      by (rule walk_strings_keeps(1))
    ultimately show ?thesis using Cons.prems(3,4) d1(2) by (intro Cons.IH)
  qed
qed

lemma ci_prefix_plain: "\<not> ci_eq p c \<Longrightarrow> ci_prefix (p # ps) (replicate n c) = None"
  by (cases n) simp_all

lemma search_plain:
  "p \<noteq> [] \<Longrightarrow> \<not> ci_eq (hd p) c \<Longrightarrow> search_alt [p] (replicate n c) = False"
proof (induction n)
  case 0
  then show ?case by (cases p) simp_all
next
  case (Suc n)
  then show ?case by (cases p) simp_all
qed

lemma items_sound:
  "(q, ancs', m) \<in> set (items rp ancs n) \<Longrightarrow>
     \<exists>q'. q = rev rp @ q' \<and> node_at n q' = Some m \<and> live_at n q'"
  "(q, ancs', m) \<in> set (items_list rp ancs i ks) \<Longrightarrow>
     \<exists>j q'. j < length ks \<and> q = rev rp @ (i + j) # q' \<and> node_at (ks ! j) q' = Some m \<and>
            live_at (ks ! j) q'"
proof (induction rp ancs n and rp ancs i ks arbitrary: q ancs' m and q ancs' m
    rule: items_items_list.induct)
  case (1 rp ancs b s)
  then show ?case by auto
next
  case (2 rp ancs g nm as ks)
  show ?case
  proof (cases g)
    case True
    with "2.prems" show ?thesis by simp
  next
    case False
    show ?thesis
    proof (cases "(q, ancs', m) = (rev rp, ancs, Tag g nm as ks)")
      case True
      with False show ?thesis by (intro exI [of _ "[]"]) simp
    next
      case nt: False
      with "2.prems" \<open>\<not> g\<close> have "(q, ancs', m) \<in> set (items_list rp (Tag g nm as ks # ancs) 0 ks)"
        by auto
      from "2.IH" [OF \<open>\<not> g\<close> this] obtain j q' where
        "j < length ks" "q = rev rp @ (0 + j) # q'" "node_at (ks ! j) q' = Some m"
        "live_at (ks ! j) q'" by blast
      with \<open>\<not> g\<close> show ?thesis by (intro exI [of _ "j # q'"]) simp
    qed
  qed
next
  case (3 rp ancs i)
  then show ?case by simp
next
  case (4 rp ancs i k ks)
  from "4.prems" consider
    (a) "(q, ancs', m) \<in> set (items (i # rp) ancs k)" |
    (b) "(q, ancs', m) \<in> set (items_list rp ancs (Suc i) ks)" by auto
  then show ?case
  proof cases
    case a
    from "4.IH"(1) [OF a] obtain q' where "q = rev (i # rp) @ q'" "node_at k q' = Some m"
      "live_at k q'" by blast
    then show ?thesis by (intro exI [of _ 0] exI [of _ q']) simp
  next
    case b
    from "4.IH"(2) [OF b] obtain j q' where "j < length ks" "q = rev rp @ (Suc i + j) # q'"
      "node_at (ks ! j) q' = Some m" "live_at (ks ! j) q'" by blast
    then show ?thesis by (intro exI [of _ "Suc j"] exI [of _ q']) simp
  qed
qed

lemma all_items_sound:
  assumes "(q, ancs, m) \<in> set (all_items d)"
  shows "live_at d q \<and> q \<noteq> [] \<and> node_at d q = Some m"
proof (cases d)
  case (Str c s)
  with assms show ?thesis by (simp add: all_items_def)
next
  case (Tag g nm as ks)
  show ?thesis
  proof (cases g)
    case True
    with assms Tag show ?thesis by (simp add: all_items_def)
  next
    case False
    with assms Tag have "(q, ancs, m) \<in> set (items_list [] [d] 0 ks)"
      by (simp add: all_items_def)
    from items_sound(2) [OF this] obtain j q' where "j < length ks" "q = j # q'"
      "node_at (ks ! j) q' = Some m" "live_at (ks ! j) q'" by auto
    with False Tag show ?thesis by simp
  qed
qed

lemma find_all_string_iff:
  "q \<in> set (find_all_string d pat) \<longleftrightarrow>
     live_at d q \<and> q \<noteq> [] \<and> (\<exists>c s. node_at d q = Some (Str c s) \<and> search_alt [pat] s)"
proof
  assume "q \<in> set (find_all_string d pat)"
  then obtain ancs m where i: "(q, ancs, m) \<in> set (all_items d)"
    and m: "case m of Str b s \<Rightarrow> search_alt [pat] s | Tag g nm as ks \<Rightarrow> False"
    by (force simp: find_all_string_def)
  from m obtain c s where "m = Str c s" "search_alt [pat] s" by (cases m) auto
  with all_items_sound [OF i]
  show "live_at d q \<and> q \<noteq> [] \<and> (\<exists>c s. node_at d q = Some (Str c s) \<and> search_alt [pat] s)"
    by blast
next
  assume "live_at d q \<and> q \<noteq> [] \<and> (\<exists>c s. node_at d q = Some (Str c s) \<and> search_alt [pat] s)"
  then show "q \<in> set (find_all_string d pat)" using find_all_string_mem by blast
qed

lemma str_decompose_rev:
  "node_at (decompose d a) q = Some (Str c s) \<Longrightarrow> node_at d q = Some (Str c s)"
proof (induction d a arbitrary: q rule: decompose.induct)
  case (1 b s a)
  then show ?case by simp
next
  case (2 g nm as ks)
  then show ?case by (cases q) (auto split: if_splits)
next
  case (3 g nm as ks i a)
  show ?case
  proof (cases q)
    case Nil
    with "3.prems" show ?thesis by (auto split: if_splits)
  next
    case (Cons j q')
    show ?thesis
    proof (cases "j = i")
      case True
      with 3 Cons show ?thesis by (auto split: if_splits)
    next
      case False
      with 3 Cons show ?thesis by (auto split: if_splits)
    qed
  qed
qed

lemma str_decompose_all_rev:
  "node_at (decompose_all d ps) q = Some (Str c s) \<Longrightarrow> node_at d q = Some (Str c s)"
proof (induction ps arbitrary: d)
  case Nil
  then show ?case by (simp add: decompose_all_def)
next
  case (Cons a ps)
  then have "node_at (decompose_all (decompose d a) ps) q = Some (Str c s)"
    by (simp add: decompose_all_def)
  then have "node_at (decompose d a) q = Some (Str c s)" by (rule Cons.IH)
  then show ?case by (rule str_decompose_rev)
qed

lemma walk_up_prefixes:
  "\<exists>ps. all_removable d ps \<and> walk_up d p = decompose_all d ps \<and>
        (\<forall>a\<in>set ps. \<exists>k\<le>length p. a = take k p)"
proof (induction d p rule: walk_up.induct)
  case (1 d p)
  show ?case
  proof (cases "removable d p")
    case False
    then have "walk_up d p = decompose_all d []"
      by (simp add: walk_up.simps [of d p] decompose_all_def)
    then show ?thesis by (intro exI [of _ "[]"]) simp
  next
    case True
    show ?thesis
    proof (cases "p = []")
      case True
      with \<open>removable d p\<close> have "walk_up d p = decompose_all d [p]"
        by (simp add: walk_up.simps [of d "[]"] decompose_all_def)
      with \<open>removable d p\<close> show ?thesis by (intro exI [of _ "[p]"]) auto
    next
      case False
      with \<open>removable d p\<close> "1.IH" obtain ps where ps: "all_removable (decompose d p) ps"
        "walk_up (decompose d p) (butlast p) = decompose_all (decompose d p) ps"
        "\<forall>a\<in>set ps. \<exists>k\<le>length (butlast p). a = take k (butlast p)" by blast
      from \<open>removable d p\<close> False have "walk_up d p = walk_up (decompose d p) (butlast p)"
        by (simp add: walk_up.simps [of d p])
      with ps have w: "walk_up d p = decompose_all d (p # ps)" by (simp add: decompose_all_def)
      have "\<forall>a\<in>set (p # ps). \<exists>k\<le>length p. a = take k p"
      proof
        fix a assume "a \<in> set (p # ps)"
        then consider "a = p" | "a \<in> set ps" by auto
        then show "\<exists>k\<le>length p. a = take k p"
        proof cases
          case 1
          then show ?thesis by (intro exI [of _ "length p"]) simp
        next
          case 2
          with ps(3) obtain k where k: "k \<le> length (butlast p)" "a = take k (butlast p)" by blast
          then have "a = take k p" by (simp add: butlast_conv_take min_absorb1)
          with k show ?thesis by (intro exI [of _ k]) simp
        qed
      qed
      with w ps(1) \<open>removable d p\<close> show ?thesis by (intro exI [of _ "p # ps"]) simp
    qed
  qed
qed

lemma walk_strings_prov:
  "walk_strings d qs = Inr d' \<Longrightarrow>
     \<exists>ps. all_removable d ps \<and> d' = decompose_all d ps \<and>
          (\<forall>a\<in>set ps. \<exists>q\<in>set qs. \<exists>k\<le>length (butlast q). a = take k (butlast q))"
proof (induction qs arbitrary: d)
  case Nil
  then have "d' = decompose_all d []" by (simp add: decompose_all_def)
  then show ?case by (intro exI [of _ "[]"]) simp
next
  case (Cons q qs)
  then have w: "walk_strings (walk_up d (butlast q)) qs = Inr d'" by (simp split: if_splits)
  obtain ps where ps: "all_removable d ps" "walk_up d (butlast q) = decompose_all d ps"
    "\<forall>a\<in>set ps. \<exists>k\<le>length (butlast q). a = take k (butlast q)"
    using walk_up_prefixes by blast
  from Cons.IH [OF w] obtain rs where rs: "all_removable (walk_up d (butlast q)) rs"
    "d' = decompose_all (walk_up d (butlast q)) rs"
    "\<forall>a\<in>set rs. \<exists>x\<in>set qs. \<exists>k\<le>length (butlast x). a = take k (butlast x)" by blast
  from ps rs have 1: "all_removable d (ps @ rs)" and 2: "d' = decompose_all d (ps @ rs)"
    by (simp_all add: all_removable_append decompose_all_append)
  have 3: "\<forall>a\<in>set (ps @ rs). \<exists>x\<in>set (q # qs). \<exists>k\<le>length (butlast x). a = take k (butlast x)"
    using ps(3) rs(3) by auto
  from 1 2 3 show ?case by blast
qed

lemma pass_prov:
  "strip_text_patterns d pats = Inr d' \<Longrightarrow>
     \<exists>ps. all_removable d ps \<and> d' = decompose_all d ps \<and>
          (\<forall>a\<in>set ps. \<exists>pat\<in>set pats. \<exists>q c s.
              node_at d q = Some (Str c s) \<and> search_alt [pat] s \<and> (\<exists>k<length q. a = take k q))"
proof (induction pats arbitrary: d)
  case Nil
  then have "d' = decompose_all d []" by (simp add: decompose_all_def)
  then show ?case by (intro exI [of _ "[]"]) simp
next
  case (Cons x pats)
  then obtain d1 where d1: "walk_strings d (find_all_string d x) = Inr d1"
    "strip_text_patterns d1 pats = Inr d'" by (auto split: sum.splits)
  from walk_strings_prov [OF d1(1)] obtain ps where ps: "all_removable d ps"
    "d1 = decompose_all d ps"
    "\<forall>a\<in>set ps. \<exists>q\<in>set (find_all_string d x). \<exists>k\<le>length (butlast q). a = take k (butlast q)"
    by blast
  from Cons.IH [OF d1(2)] obtain rs where rs: "all_removable d1 rs" "d' = decompose_all d1 rs"
    "\<forall>a\<in>set rs. \<exists>pat\<in>set pats. \<exists>q c s.
        node_at d1 q = Some (Str c s) \<and> search_alt [pat] s \<and> (\<exists>k<length q. a = take k q)"
    by blast
  from ps rs have 1: "all_removable d (ps @ rs)" and 2: "d' = decompose_all d (ps @ rs)"
    by (simp_all add: all_removable_append decompose_all_append)
  have 3: "\<forall>a\<in>set (ps @ rs). \<exists>pat\<in>set (x # pats). \<exists>q c s.
        node_at d q = Some (Str c s) \<and> search_alt [pat] s \<and> (\<exists>k<length q. a = take k q)"
  proof
    fix a assume "a \<in> set (ps @ rs)"
    then consider "a \<in> set ps" | "a \<in> set rs" by auto
    then show "\<exists>pat\<in>set (x # pats). \<exists>q c s.
        node_at d q = Some (Str c s) \<and> search_alt [pat] s \<and> (\<exists>k<length q. a = take k q)"
    proof cases
      case 1
      with ps(3) obtain q k where q: "q \<in> set (find_all_string d x)"
        and k: "k \<le> length (butlast q)" "a = take k (butlast q)" by blast
      from q obtain c s where n: "q \<noteq> []" "node_at d q = Some (Str c s)" "search_alt [x] s"
        unfolding find_all_string_iff by blast
      from k n(1) have "k < length q" by (cases q rule: rev_cases) simp_all
      moreover from k have "a = take k q" by (simp add: butlast_conv_take min_absorb1)
      ultimately have "\<exists>q c s. node_at d q = Some (Str c s) \<and> search_alt [x] s \<and>
          (\<exists>k<length q. a = take k q)" using n by blast
      moreover have "x \<in> set (x # pats)" by simp
      ultimately show ?thesis by (rule bexI)
    next
      case 2
      with rs(3) obtain pat' q' c' s' k' where o: "pat' \<in> set pats"
        "node_at d1 q' = Some (Str c' s')" "search_alt [pat'] s'" "k' < length q'"
        "a = take k' q'" by blast
      from o(2) ps(2) have n: "node_at d q' = Some (Str c' s')"
        using str_decompose_all_rev by blast
      from o(1) have m: "pat' \<in> set (x # pats)" by simp
      from n o(3,4,5) have "\<exists>q c s. node_at d q = Some (Str c s) \<and> search_alt [pat'] s \<and>
          (\<exists>k<length q. a = take k q)" by blast
      with m show ?thesis by (rule bexI [rotated])
    qed
  qed
  from 1 2 3 show ?case by blast
qed

text \<open>
  Claim C6, as amended.  For each pattern the pass lists the strings of the tree that match
  it and are still in the tree, and walks up from each in turn.  A walk looks at one
  ancestor at a time, starting with the parent of the string.  It deletes the ancestor it
  looks at exactly when that is a button, a, div or section tag whose text, as the tree is
  at that moment, is shorter than 1000 characters, and then goes on from the former parent
  on the tree without the deleted ancestor; at the first ancestor that fails the test the
  walk ends and leaves the tree as it is.  Over a whole pass that comes to its end, every
  element deleted is an ancestor of a string matching one of the patterns and passed the
  test at the moment of its deletion, and the parent of a string matching one of the
  patterns is removed whenever it passes the test on the tree before the pass.  A section
  of 1000 characters or more is left alone by the walk that reaches it; a later walk of the
  same pass removes it if deletions inside it have brought it below 1000, as in \<open>d6n\<close>.
\<close>

theorem text_pattern_pass:
  "(removable d p \<longleftrightarrow>
      (\<exists>n. node_at d p = Some n \<and> is_tag n \<and>
           tag_name n \<in> set (map u [''button'', ''a'', ''div'', ''section'']) \<and>
           length (text_at d p) < 1000)) \<and>
   (removable d p \<longrightarrow> \<not> live_at (walk_up d p) p \<and>
      (p \<noteq> [] \<longrightarrow> walk_up d p = walk_up (decompose d p) (butlast p))) \<and>
   (\<not> removable d p \<longrightarrow> walk_up d p = d) \<and>
   (q \<in> set (find_all_string d pat) \<longleftrightarrow>
      live_at d q \<and> q \<noteq> [] \<and> (\<exists>c s. node_at d q = Some (Str c s) \<and> search_alt [pat] s)) \<and>
   (walk_strings d (q # qs) = Inr d1 \<longleftrightarrow>
      live_at d q \<and> walk_strings (walk_up d (butlast q)) qs = Inr d1) \<and>
   (strip_text_patterns d text_patterns = Inr d' \<longrightarrow>
      (\<exists>ps. all_removable d ps \<and> d' = decompose_all d ps \<and>
         (\<forall>a\<in>set ps. \<exists>pat\<in>set text_patterns. \<exists>q c s.
             node_at d q = Some (Str c s) \<and> search_alt [pat] s \<and>
             (\<exists>k<length q. a = take k q)))) \<and>
   (strip_text_patterns d text_patterns = Inr d' \<and> pat \<in> set text_patterns \<and>
    node_at d q = Some (Str c s) \<and> search_alt [pat] s \<and> q \<noteq> [] \<and>
    removable d (butlast q) \<longrightarrow> \<not> live_at d' (butlast q))"
proof (intro conjI impI)
  show "removable d p \<longleftrightarrow>
      (\<exists>n. node_at d p = Some n \<and> is_tag n \<and>
           tag_name n \<in> set (map u [''button'', ''a'', ''div'', ''section'']) \<and>
           length (text_at d p) < 1000)"
    by (rule removable_iff)
  show "q \<in> set (find_all_string d pat) \<longleftrightarrow>
      live_at d q \<and> q \<noteq> [] \<and> (\<exists>c s. node_at d q = Some (Str c s) \<and> search_alt [pat] s)"
    by (rule find_all_string_iff)
  show "walk_strings d (q # qs) = Inr d1 \<longleftrightarrow>
      live_at d q \<and> walk_strings (walk_up d (butlast q)) qs = Inr d1"
    by simp
next
  assume "removable d p"
  then show "\<not> live_at (walk_up d p) p" by (rule walk_up_removes)
next
  assume "removable d p" "p \<noteq> []"
  then show "walk_up d p = walk_up (decompose d p) (butlast p)"
    by (simp add: walk_up.simps [of d p])
next
  assume "\<not> removable d p"
  then show "walk_up d p = d" by (simp add: walk_up.simps [of d p])
next
  assume "strip_text_patterns d text_patterns = Inr d'"
  then show "\<exists>ps. all_removable d ps \<and> d' = decompose_all d ps \<and>
         (\<forall>a\<in>set ps. \<exists>pat\<in>set text_patterns. \<exists>q c s.
             node_at d q = Some (Str c s) \<and> search_alt [pat] s \<and>
             (\<exists>k<length q. a = take k q))"
    by (rule pass_prov)
next
  assume a: "strip_text_patterns d text_patterns = Inr d' \<and> pat \<in> set text_patterns \<and>
    node_at d q = Some (Str c s) \<and> search_alt [pat] s \<and> q \<noteq> [] \<and>
    removable d (butlast q)"
  then show "\<not> live_at d' (butlast q)"
    using pass_removes [of pat text_patterns d q c s d'] by blast
qed

lemmas pass_eval = walk_eval tree_eval ci_eq_def ascii_lower_def text_patterns_def
  search_plain ci_prefix_plain

lemma d6b_pass:
  "strip_text_patterns d6b text_patterns = Inr (decompose d6b [0])"
  "node_at d6b [0, 0] = Some (Str NavigableString (u ''Read More''))"
  "search_alt [u ''read more''] (u ''Read More'')"
  "u ''read more'' \<in> set text_patterns"
  by (simp_all add: d6b_def pass_eval)

lemma d6s_pass:
  "strip_text_patterns d6s text_patterns = Inr d6s"
  by (simp add: d6s_def pass_eval)

lemma d6n_pass:
  "find_all_string d6n (u ''read more'') = [[0, 0], [0, 1, 0]]"
  "length (text_at d6n [0]) = 1008"
  "\<not> removable d6n [0]"
  "length (text_at (decompose d6n [0, 1]) [0]) = 999"
  "all_removable d6n [[0, 1], [0]]"
  "strip_text_patterns d6n text_patterns = Inr (decompose (decompose d6n [0, 1]) [0])"
  "\<not> live_at (decompose (decompose d6n [0, 1]) [0]) [0]"
  by (simp_all add: d6n_def pass_eval)

theorem text_pattern_pass_witness:
  "removable d6b [0] \<and>
   strip_text_patterns d6b text_patterns = Inr (decompose d6b [0]) \<and>
   \<not> live_at (decompose d6b [0]) [0] \<and>
   \<not> removable d6s [0] \<and> walk_up d6s [0] = d6s \<and>
   strip_text_patterns d6s text_patterns = Inr d6s \<and> live_at d6s [0] \<and>
   find_all_string d6n (u ''read more'') = [[0, 0], [0, 1, 0]] \<and>
   length (text_at d6n [0]) = 1008 \<and> walk_up d6n [0] = d6n \<and>
   length (text_at (decompose d6n [0, 1]) [0]) = 999 \<and>
   all_removable d6n [[0, 1], [0]] \<and>
   strip_text_patterns d6n text_patterns = Inr (decompose (decompose d6n [0, 1]) [0]) \<and>
   \<not> live_at (decompose (decompose d6n [0, 1]) [0]) [0]"
proof -
  have bl: "butlast [0, 0::nat] = [0]" by simp
  from text_pattern_pass [where d = d6b and d' = "decompose d6b [0]" and pat = "u ''read more''"
      and q = "[0, 0]" and c = NavigableString and s = "u ''Read More''"]
    d6b_pass d6b_walk(2) bl
  have b: "\<not> live_at (decompose d6b [0]) [0]" by simp
  from text_pattern_pass [where d = d6s and p = "[0]"] d6s_walk(2)
  have s: "walk_up d6s [0] = d6s" by blast
  from text_pattern_pass [where d = d6n and p = "[0]"] d6n_pass(3)
  have n: "walk_up d6n [0] = d6n" by blast
  from b s n d6b_pass(1) d6b_walk(2) d6s_walk(2,3) d6s_pass d6n_pass show ?thesis by simp
qed

text \<open>
  Claim C6, as stated, fails.  In \<^verbatim>\<open><button><span>Read More</span></button>\<close> the button is an
  ancestor of the matching string, it is in the tag set and its text has 9 characters, and
  it is not deleted: the walk ends at the span, which is not in the tag set.
\<close>

theorem button_ancestor_survives:
  "find_all_string d6 (u ''read more'') = [[0, 0, 0]] \<and>
   removable d6 [0] \<and>
   walk_up d6 (butlast [0, 0, 0]) = d6 \<and>
   live_at (walk_up d6 (butlast [0, 0, 0])) [0] \<and>
   strip_text_patterns d6 text_patterns = Inr d6"
  by (simp add: d6_def walk_eval tree_eval ci_eq_def ascii_lower_def text_patterns_def)

section \<open>Properties of metadata recovery\<close>








lemma first_match_Some:
  "first_match d sels = Some q \<longleftrightarrow>
     (\<exists>i<length sels. (\<forall>j<i. select d (sels ! j) = []) \<and>
         (\<exists>qs. select d (sels ! i) = q # qs))"
proof (induction sels)
  case Nil
  show ?case by simp
next
  case (Cons sel sels)
  show ?case
  proof (cases "select d sel")
    case Nil
    then have "first_match d (sel # sels) = first_match d sels" by (simp add: select_one_def)
    moreover have "(\<exists>i<length (sel # sels). (\<forall>j<i. select d ((sel # sels) ! j) = []) \<and>
         (\<exists>qs. select d ((sel # sels) ! i) = q # qs)) \<longleftrightarrow>
       (\<exists>i<length sels. (\<forall>j<i. select d (sels ! j) = []) \<and>
         (\<exists>qs. select d (sels ! i) = q # qs))"
      using Nil by (simp add: Ex_less_Suc2 All_less_Suc2)
    ultimately show ?thesis using Cons by simp
  next
    case (Cons p ps)
    then have 1: "first_match d (sel # sels) = Some p" by (simp add: select_one_def)
    have "(\<exists>i<length (sel # sels). (\<forall>j<i. select d ((sel # sels) ! j) = []) \<and>
         (\<exists>qs. select d ((sel # sels) ! i) = q # qs)) \<longleftrightarrow> p = q"
      using Cons by (auto simp: Ex_less_Suc2 All_less_Suc2)
    with 1 show ?thesis by auto
  qed
qed

lemma first_match_None:
  "first_match d sels = None \<longleftrightarrow> (\<forall>sel\<in>set sels. select d sel = [])"
  by (induction sels) (auto simp: select_one_def split: list.splits)

text \<open>
  Claim C8, as amended.  The title is the trimmed text of the first \<^verbatim>\<open>h1\<close> when that text
  is not empty.  When there is no \<^verbatim>\<open>h1\<close> or its trimmed text is empty, the title is the
  trimmed text of the first element of the first fallback selector that matches anything,
  empty or not.  When no fallback selector matches, the title is absent if there is no
  \<^verbatim>\<open>h1\<close> and the empty string if the \<^verbatim>\<open>h1\<close> is empty.
\<close>

theorem extract_title_cases:
  "(soup_find d (u ''h1'') = Some p \<and> strip (text_at d p) \<noteq> [] \<longrightarrow>
      extract_title d = Some (strip (text_at d p))) \<and>
   ((soup_find d (u ''h1'') = None \<or>
     (soup_find d (u ''h1'') = Some p \<and> strip (text_at d p) = [])) \<and>
    i < length title_selectors \<and> (\<forall>j<i. select d (title_selectors ! j) = []) \<and>
    select d (title_selectors ! i) = q # qs \<longrightarrow>
      extract_title d = Some (strip (text_at d q))) \<and>
   ((\<forall>sel\<in>set title_selectors. select d sel = []) \<longrightarrow>
      (soup_find d (u ''h1'') = None \<longrightarrow> extract_title d = None) \<and>
      (soup_find d (u ''h1'') = Some p \<and> strip (text_at d p) = [] \<longrightarrow>
         extract_title d = Some []))"
proof (intro conjI impI)
  assume "soup_find d (u ''h1'') = Some p \<and> strip (text_at d p) \<noteq> []"
  then show "extract_title d = Some (strip (text_at d p))"
    by (simp add: extract_title_def)
next
  assume a: "(soup_find d (u ''h1'') = None \<or>
     (soup_find d (u ''h1'') = Some p \<and> strip (text_at d p) = [])) \<and>
    i < length title_selectors \<and> (\<forall>j<i. select d (title_selectors ! j) = []) \<and>
    select d (title_selectors ! i) = q # qs"
  then have "first_match d title_selectors = Some q"
    unfolding first_match_Some by blast
  with a show "extract_title d = Some (strip (text_at d q))"
    by (auto simp: extract_title_def)
next
  assume "\<forall>sel\<in>set title_selectors. select d sel = []"
    and "soup_find d (u ''h1'') = None"
  then show "extract_title d = None"
    by (simp add: extract_title_def first_match_None [symmetric])
next
  assume "\<forall>sel\<in>set title_selectors. select d sel = []"
    and "soup_find d (u ''h1'') = Some p \<and> strip (text_at d p) = []"
  then show "extract_title d = Some []"
    by (simp add: extract_title_def first_match_None [symmetric])
qed

lemma d8_facts:
  "soup_find d8 (u ''h1'') = None"
  "select d8 (title_selectors ! 0) = [[0]]"
  "strip (text_at d8 [0]) = []"
  by (simp_all add: d8_def title_selectors_def tree_eval strip_def)

lemma d_e2e_facts:
  "soup_find d_e2e (u ''h1'') = Some [0]"
  "strip (text_at d_e2e [0]) = u ''Title Text''"
  by (simp_all add: d_e2e_def tree_eval strip_def is_space_def)

theorem extract_title_cases_witness:
  "soup_find d_e2e (u ''h1'') = Some [0] \<and> strip (text_at d_e2e [0]) = u ''Title Text'' \<and>
   extract_title d_e2e = Some (u ''Title Text'') \<and>
   soup_find d8 (u ''h1'') = None \<and> select d8 (title_selectors ! 0) = [[0]] \<and>
   extract_title d8 = Some []"
proof -
  have ne: "strip (text_at d_e2e [0]) \<noteq> []" by (simp add: d_e2e_facts u_def)
  from extract_title_cases [of d_e2e "[0]"] d_e2e_facts ne
  have 1: "extract_title d_e2e = Some (u ''Title Text'')" by simp
  have "0 < length title_selectors" by (simp add: title_selectors_def)
  with extract_title_cases [of d8 "[]" 0 "[0]" "[]"] d8_facts
  have 2: "extract_title d8 = Some []" by simp
  from 1 2 d8_facts d_e2e_facts show ?thesis by simp
qed

text \<open>
  Claim C8, as stated, fails.  Fallback matches with an empty text are not skipped: with
  an empty \<^verbatim>\<open>itemprop="headline"\<close> element before \<^verbatim>\<open><div class="article-title">Real</div>\<close>
  the title is the empty string, where the claim gives \<^verbatim>\<open>Real\<close>.
\<close>

theorem empty_headline_wins:
  "extract_title d8 = Some [] \<and> title_as_claimed d8 = Some (u ''Real'')"
  by (simp add: d8_def extract_title_def title_as_claimed_def title_selectors_def tree_eval
      strip_def is_space_def)

section \<open>Properties of the call\<close>

lemmas noise_eval = strip_ids_def strip_classes_def find_all_id_def find_all_class_def
  find_all_string_def removal_ids_def removal_classes_def text_patterns_def walk_tags_def
  removable_def walk_up.simps search_plain ci_eq_def ascii_lower_def

lemma noise_samples:
  "strip_text_patterns (strip_classes (strip_ids d_e2e)) text_patterns = Inr d_e2e"
  "strip_text_patterns (strip_classes (strip_ids d9)) text_patterns = Inr d9"
  "strip_text_patterns (strip_classes (strip_ids d_none)) text_patterns = Inr d_none"
  by (simp_all add: d_e2e_def d9_def d_none_def noise_eval tree_eval)

lemma page_ne: "page \<noteq> []" "clean_input_text page = page"
  by (simp_all add: page_def clean_input_text_def strip_def u_def is_space_def)

lemma pipeline:
  assumes "fetch env url p = Inr (Some r)" "r \<noteq> []"
    and "remove_overlays_and_clean_content env (clean_input_text r) = Inr html"
    and "parse_html env html = Inr soup"
  shows "extract_article env url p language =
     (case locate_content env url language html soup of
        Inl e \<Rightarrow> Failure url (str_of e)
      | Inr (d1, texts) \<Rightarrow> assemble url p d1 texts)"
  using assms by (simp add: extract_article_def extract_body_def split: sum.splits prod.splits)

lemma serve_facts:
  assumes n: "strip_text_patterns (strip_classes (strip_ids d)) text_patterns = Inr d"
  shows "fetch (serve d fb) url (u ''zyte'') = Inr (Some page)"
    and "remove_overlays_and_clean_content (serve d fb) (clean_input_text page) = Inr page"
    and "parse_html (serve d fb) page = Inr d"
proof -
  have r: "remove_overlays_and_clean_content (serve d fb) page = Inr page"
    by (simp add: remove_overlays_and_clean_content_def serve_def n page_ne)
  have z: "zyte_request (serve d fb) url = Inr (Inr (Some page))" by (simp add: serve_def)
  have "f_zyte_proxy (serve d fb) url = Some page"
    by (simp add: f_zyte_proxy_def z r)
  moreover have "u ''zyte'' \<noteq> u ''oxylabs''" by (simp add: u_def)
  ultimately show "fetch (serve d fb) url (u ''zyte'') = Inr (Some page)"
    by (simp add: fetch_def)
  show "remove_overlays_and_clean_content (serve d fb) (clean_input_text page) = Inr page"
    by (simp add: page_ne r)
  show "parse_html (serve d fb) page = Inr d" by (simp add: serve_def)
qed

lemma serve_pipeline:
  assumes n: "strip_text_patterns (strip_classes (strip_ids d)) text_patterns = Inr d"
  shows "extract_article (serve d fb) url (u ''zyte'') language =
     (case locate_content (serve d fb) url language page d of
        Inl e \<Rightarrow> Failure url (str_of e)
      | Inr (d1, texts) \<Rightarrow> assemble url (u ''zyte'') d1 texts)"
  using serve_facts [OF n] page_ne(1) by (intro pipeline)

lemma cascade_samples:
  "cascade d_e2e content_selectors = (d_e2e, [replicate 150 120])"
  "cascade d9 content_selectors = (d9, [long_x])"
  by (simp_all add: d_e2e_def d9_def content_selectors_def tree_eval)

lemma cascade_none: "cascade d_none content_selectors = (d_none, [])"
  by (simp add: d_none_def content_selectors_def select_def all_items_def sel_match_def
      tier_def classes_def doc_def elem_def u_def)

lemma meta_samples:
  "extract_title d_e2e = Some (u ''Title Text'')"
  "extract_authors d_e2e = []"
  "extract_date d_e2e = None"
  "extract_title d9 = None"
  "extract_authors d9 = []"
  "extract_date d9 = None"
  by (simp_all add: d_e2e_def d9_def extract_title_def extract_authors_def extract_date_def
      author_texts_def title_selectors_def author_selectors_def date_selectors_def
      add_author_def tree_eval strip_def is_space_def)

lemma end_to_end:
  "extract_article env0 (u ''http://a.b'') (u ''zyte'') (u ''en'') =
     Extracted \<lparr>art_url = u ''http://a.b'', art_title = Some (u ''Title Text''),
                art_text = replicate 150 120, art_authors = [], art_publish_date = None,
                art_method = u ''zyte''\<rparr>"
  unfolding env0_def
  by (simp add: serve_pipeline noise_samples locate_content_def cascade_samples assemble_def
      meta_samples clean_text_x)

lemma end_to_end_bare:
  "extract_article env9 (u ''http://a.b'') (u ''zyte'') (u ''en'') =
     Extracted \<lparr>art_url = u ''http://a.b'', art_title = None,
                art_text = long_x, art_authors = [], art_publish_date = None,
                art_method = u ''zyte''\<rparr>"
  unfolding env9_def
  by (simp add: serve_pipeline noise_samples locate_content_def cascade_samples assemble_def
      meta_samples long_x_def clean_text_x)

lemma end_to_end_none:
  "extract_article env_none (u ''http://a.b'') (u ''zyte'') (u ''en'') =
     Failure (u ''http://a.b'') (u ''No content found'')"
  unfolding env_none_def
  by (simp add: serve_pipeline noise_samples locate_content_def cascade_none)
    (simp add: serve_def assemble_def)

lemma extract_article_url: "result_url (extract_article env url p l) = url"
  by (auto simp: extract_article_def extract_body_def assemble_def
      split: sum.splits option.splits if_splits prod.splits)

lemma extract_article_shape:
  "(\<exists>err. extract_article env url p l = Failure url err) \<or>
   (\<exists>a. extract_article env url p l = Extracted a \<and> art_url a = url)"
  using extract_article_url [of env url p l]
  by (cases "extract_article env url p l") auto

lemma invalid_provider:
  "p \<noteq> u ''oxylabs'' \<Longrightarrow> p \<noteq> u ''zyte'' \<Longrightarrow>
     extract_article env url p l = Failure url (u ''Invalid proxy provider: '' @ p)"
  by (simp add: extract_article_def extract_body_def fetch_def)

lemma no_response:
  "fetch env url p = Inr None \<or> fetch env url p = Inr (Some []) \<Longrightarrow>
     extract_article env url p l = Failure url (u ''No response from proxy'')"
  by (auto simp: extract_article_def extract_body_def)

lemma zyte_raises:
  "zyte_request env url = Inl e \<Longrightarrow> fetch env url (u ''zyte'') = Inr None"
  by (simp add: fetch_def f_zyte_proxy_def u_def)

lemma oxylabs_raises:
  "oxylabs_request env url1 = Inl e \<Longrightarrow>
   url1 = (if \<not> contains (u ''http://'') url \<and> \<not> contains (u ''https://'') url
           then u ''https://'' @ url else url) \<Longrightarrow>
     fetch env url (u ''oxylabs'') = Inr None"
  by (simp add: fetch_def f_oxylabs_proxy_def Let_def)

text \<open>
  Claim C1.  Every exception the body of the call can raise is a value of the model, and
  the call turns each into a record: whatever the inputs and whatever the collaborators do,
  the call returns one record, either an error record with the url or a result with the
  url.  An unsupported provider name gives the error \<^verbatim>\<open>Invalid proxy provider: <name>\<close>; no
  page from the proxy (absent or empty, in particular when the request raises) gives
  \<^verbatim>\<open>No response from proxy\<close>; an exception of the noise stripper, of the parser or of the
  generic extractor gives its message.
\<close>

theorem extract_article_never_raises:
  "result_url (extract_article env url use_proxy language) = url \<and>
   ((\<exists>err. extract_article env url use_proxy language = Failure url err) \<or>
    (\<exists>a. extract_article env url use_proxy language = Extracted a \<and> art_url a = url)) \<and>
   (use_proxy \<noteq> u ''oxylabs'' \<and> use_proxy \<noteq> u ''zyte'' \<longrightarrow>
      extract_article env url use_proxy language =
        Failure url (u ''Invalid proxy provider: '' @ use_proxy)) \<and>
   (fetch env url use_proxy = Inr None \<or> fetch env url use_proxy = Inr (Some []) \<longrightarrow>
      extract_article env url use_proxy language = Failure url (u ''No response from proxy'')) \<and>
   (zyte_request env url = Inl e \<longrightarrow>
      extract_article env url (u ''zyte'') language = Failure url (u ''No response from proxy'')) \<and>
   (extract_body env url use_proxy language = Inl e \<longrightarrow>
      extract_article env url use_proxy language = Failure url (str_of e)) \<and>
   (fetch env url use_proxy = Inr (Some r) \<and> r \<noteq> [] \<and>
    remove_overlays_and_clean_content env (clean_input_text r) = Inl e \<longrightarrow>
      extract_article env url use_proxy language = Failure url (str_of e)) \<and>
   (fetch env url use_proxy = Inr (Some r) \<and> r \<noteq> [] \<and>
    remove_overlays_and_clean_content env (clean_input_text r) = Inr html \<and>
    parse_html env html = Inl e \<longrightarrow>
      extract_article env url use_proxy language = Failure url (str_of e)) \<and>
   (fetch env url use_proxy = Inr (Some r) \<and> r \<noteq> [] \<and>
    remove_overlays_and_clean_content env (clean_input_text r) = Inr html \<and>
    parse_html env html = Inr soup \<and>
    locate_content env url language html soup = Inl e \<longrightarrow>
      extract_article env url use_proxy language = Failure url (str_of e))"
proof (intro conjI impI)
  show "result_url (extract_article env url use_proxy language) = url"
    by (rule extract_article_url)
  show "(\<exists>err. extract_article env url use_proxy language = Failure url err) \<or>
    (\<exists>a. extract_article env url use_proxy language = Extracted a \<and> art_url a = url)"
    by (rule extract_article_shape)
next
  assume "use_proxy \<noteq> u ''oxylabs'' \<and> use_proxy \<noteq> u ''zyte''"
  then show "extract_article env url use_proxy language =
        Failure url (u ''Invalid proxy provider: '' @ use_proxy)"
    by (simp add: invalid_provider)
next
  assume "fetch env url use_proxy = Inr None \<or> fetch env url use_proxy = Inr (Some [])"
  then show "extract_article env url use_proxy language = Failure url (u ''No response from proxy'')"
    by (rule no_response)
next
  assume "zyte_request env url = Inl e"
  then have "fetch env url (u ''zyte'') = Inr None" by (rule zyte_raises)
  then show "extract_article env url (u ''zyte'') language = Failure url (u ''No response from proxy'')"
    by (simp add: no_response)
next
  assume "extract_body env url use_proxy language = Inl e"
  then show "extract_article env url use_proxy language = Failure url (str_of e)"
    by (simp add: extract_article_def)
next
  assume "fetch env url use_proxy = Inr (Some r) \<and> r \<noteq> [] \<and>
    remove_overlays_and_clean_content env (clean_input_text r) = Inl e"
  then show "extract_article env url use_proxy language = Failure url (str_of e)"
    by (simp add: extract_article_def extract_body_def)
next
  assume "fetch env url use_proxy = Inr (Some r) \<and> r \<noteq> [] \<and>
    remove_overlays_and_clean_content env (clean_input_text r) = Inr html \<and>
    parse_html env html = Inl e"
  then show "extract_article env url use_proxy language = Failure url (str_of e)"
    by (simp add: extract_article_def extract_body_def)
next
  assume "fetch env url use_proxy = Inr (Some r) \<and> r \<noteq> [] \<and>
    remove_overlays_and_clean_content env (clean_input_text r) = Inr html \<and>
    parse_html env html = Inr soup \<and>
    locate_content env url language html soup = Inl e"
  then show "extract_article env url use_proxy language = Failure url (str_of e)"
    by (simp add: extract_article_def extract_body_def)
qed

theorem extract_article_never_raises_witness:
  "extract_article env0 (u ''http://a.b'') (u ''zyte'') (u ''en'') =
     Extracted \<lparr>art_url = u ''http://a.b'', art_title = Some (u ''Title Text''),
                art_text = replicate 150 120, art_authors = [], art_publish_date = None,
                art_method = u ''zyte''\<rparr> \<and>
   result_url (extract_article env0 (u ''http://a.b'') (u ''zyte'') (u ''en'')) = u ''http://a.b'' \<and>
   extract_article env0 (u ''http://a.b'') (u ''bing'') (u ''en'') =
     Failure (u ''http://a.b'') (u ''Invalid proxy provider: bing'') \<and>
   fetch env0 (u ''http://a.b'') (u ''oxylabs'') = Inr None \<and>
   extract_article env0 (u ''http://a.b'') (u ''oxylabs'') (u ''en'') =
     Failure (u ''http://a.b'') (u ''No response from proxy'')"
proof -
  note t = extract_article_never_raises [of env0 "u ''http://a.b''" _ "u ''en''"]
  have 1: "result_url (extract_article env0 (u ''http://a.b'') (u ''zyte'') (u ''en'')) = u ''http://a.b''"
    using t [of "u ''zyte''"] by blast
  have "u ''bing'' \<noteq> u ''oxylabs'' \<and> u ''bing'' \<noteq> u ''zyte''" by (simp add: u_def)
  with t [of "u ''bing''"] have "extract_article env0 (u ''http://a.b'') (u ''bing'') (u ''en'') =
     Failure (u ''http://a.b'') (u ''Invalid proxy provider: '' @ u ''bing'')" by blast
  then have 2: "extract_article env0 (u ''http://a.b'') (u ''bing'') (u ''en'') =
     Failure (u ''http://a.b'') (u ''Invalid proxy provider: bing'')" by (simp add: u_def)
  have 3: "fetch env0 (u ''http://a.b'') (u ''oxylabs'') = Inr None"
    by (rule oxylabs_raises [where e = "Exn (u ''timeout'')"]) (simp_all add: env0_def serve_def)
  with t [of "u ''oxylabs''"] have 4: "extract_article env0 (u ''http://a.b'') (u ''oxylabs'') (u ''en'') =
     Failure (u ''http://a.b'') (u ''No response from proxy'')" by blast
  from 1 2 3 4 end_to_end show ?thesis by simp
qed

lemma locate_found:
  "snd (cascade soup content_selectors) \<noteq> [] \<Longrightarrow>
     locate_content env url language html soup = Inr (cascade soup content_selectors)"
  by (cases "cascade soup content_selectors") (simp add: locate_content_def)

lemma locate_fallback:
  "snd (cascade soup content_selectors) = [] \<Longrightarrow> article_text env url language html = Inr t \<Longrightarrow>
     locate_content env url language html soup =
       Inr (fst (cascade soup content_selectors), if clean_text t \<noteq> [] then [clean_text t] else [])"
  by (cases "cascade soup content_selectors") (auto simp: locate_content_def clean_text_def)

text \<open>
  Claim C9.  When the cascade accepts a text, the outcome of content location is that of
  the cascade whatever the generic extractor is, even one that raises: it is not consulted.
  When the cascade accepts nothing, the text of the generic extractor is taken if it is not
  empty once normalized.  When both give nothing, the call returns the error record
  \<^verbatim>\<open>No content found\<close>.  When there is content, the call returns a result whatever the title,
  the date and the authors are, absent ones included.
\<close>

theorem content_absence_is_fatal:
  "(snd (cascade soup content_selectors) \<noteq> [] \<longrightarrow>
      locate_content (env\<lparr>article_text := fb\<rparr>) url language html soup =
        Inr (cascade soup content_selectors)) \<and>
   (snd (cascade soup content_selectors) = [] \<and> article_text env url language html = Inr t \<longrightarrow>
      locate_content env url language html soup =
        Inr (fst (cascade soup content_selectors),
             if clean_text t \<noteq> [] then [clean_text t] else [])) \<and>
   (fetch env url use_proxy = Inr (Some r) \<and> r \<noteq> [] \<and>
    remove_overlays_and_clean_content env (clean_input_text r) = Inr html \<and>
    parse_html env html = Inr soup \<and>
    snd (cascade soup content_selectors) = [] \<and>
    article_text env url language html = Inr t \<and> clean_text t = [] \<longrightarrow>
      extract_article env url use_proxy language = Failure url (u ''No content found'')) \<and>
   (fetch env url use_proxy = Inr (Some r) \<and> r \<noteq> [] \<and>
    remove_overlays_and_clean_content env (clean_input_text r) = Inr html \<and>
    parse_html env html = Inr soup \<and>
    locate_content env url language html soup = Inr (d1, texts) \<and> texts \<noteq> [] \<longrightarrow>
      extract_article env url use_proxy language =
        Extracted \<lparr>art_url = url, art_title = extract_title d1,
                   art_text = clean_text (join [nl, nl] texts),
                   art_authors = extract_authors d1, art_publish_date = extract_date d1,
                   art_method = use_proxy\<rparr>)"
proof (intro conjI impI)
  assume "snd (cascade soup content_selectors) \<noteq> []"
  then show "locate_content (env\<lparr>article_text := fb\<rparr>) url language html soup =
        Inr (cascade soup content_selectors)"
    by (rule locate_found)
next
  assume "snd (cascade soup content_selectors) = [] \<and> article_text env url language html = Inr t"
  then show "locate_content env url language html soup =
        Inr (fst (cascade soup content_selectors),
             if clean_text t \<noteq> [] then [clean_text t] else [])"
    by (simp add: locate_fallback)
next
  assume a: "fetch env url use_proxy = Inr (Some r) \<and> r \<noteq> [] \<and>
    remove_overlays_and_clean_content env (clean_input_text r) = Inr html \<and>
    parse_html env html = Inr soup \<and>
    snd (cascade soup content_selectors) = [] \<and>
    article_text env url language html = Inr t \<and> clean_text t = []"
  then have "locate_content env url language html soup = Inr (fst (cascade soup content_selectors), [])"
    by (simp add: locate_fallback)
  with a show "extract_article env url use_proxy language = Failure url (u ''No content found'')"
    by (simp add: pipeline [of env url use_proxy r html soup] assemble_def)
next
  assume a: "fetch env url use_proxy = Inr (Some r) \<and> r \<noteq> [] \<and>
    remove_overlays_and_clean_content env (clean_input_text r) = Inr html \<and>
    parse_html env html = Inr soup \<and>
    locate_content env url language html soup = Inr (d1, texts) \<and> texts \<noteq> []"
  then show "extract_article env url use_proxy language =
        Extracted \<lparr>art_url = url, art_title = extract_title d1,
                   art_text = clean_text (join [nl, nl] texts),
                   art_authors = extract_authors d1, art_publish_date = extract_date d1,
                   art_method = use_proxy\<rparr>"
    by (simp add: pipeline [of env url use_proxy r html soup] assemble_def)
qed

theorem content_absence_is_fatal_witness:
  "cascade d9 content_selectors = (d9, [long_x]) \<and>
   article_text env9 (u ''http://a.b'') (u ''en'') page = Inl (Exn (u ''boom'')) \<and>
   locate_content (env_none\<lparr>article_text := article_text env9\<rparr>) (u ''http://a.b'') (u ''en'') page d9 =
     Inr (d9, [long_x]) \<and>
   extract_title d9 = None \<and> extract_authors d9 = [] \<and> extract_date d9 = None \<and>
   extract_article env9 (u ''http://a.b'') (u ''zyte'') (u ''en'') =
     Extracted \<lparr>art_url = u ''http://a.b'', art_title = None, art_text = long_x,
                art_authors = [], art_publish_date = None, art_method = u ''zyte''\<rparr> \<and>
   cascade d_none content_selectors = (d_none, []) \<and>
   article_text env_none (u ''http://a.b'') (u ''en'') page = Inr [] \<and>
   extract_article env_none (u ''http://a.b'') (u ''zyte'') (u ''en'') =
     Failure (u ''http://a.b'') (u ''No content found'')"
proof -
  have fb9: "article_text env9 (u ''http://a.b'') (u ''en'') page = Inl (Exn (u ''boom''))"
    by (simp add: env9_def serve_def)
  have fbn: "article_text env_none (u ''http://a.b'') (u ''en'') page = Inr []"
    by (simp add: env_none_def serve_def)
  have ne: "snd (cascade d9 content_selectors) \<noteq> []" by (simp add: cascade_samples)
  from content_absence_is_fatal [where soup = d9 and env = env_none and fb = "article_text env9"
      and url = "u ''http://a.b''" and language = "u ''en''" and html = page] ne
  have 1: "locate_content (env_none\<lparr>article_text := article_text env9\<rparr>) (u ''http://a.b'') (u ''en'') page d9 =
     Inr (d9, [long_x])"
    by (simp add: cascade_samples)
  have l9: "locate_content env9 (u ''http://a.b'') (u ''en'') page d9 = Inr (d9, [long_x])"
    using ne by (simp add: locate_found cascade_samples)
  have ct: "clean_text long_x = long_x" by (simp add: long_x_def clean_text_x)
  have f9: "fetch env9 (u ''http://a.b'') (u ''zyte'') = Inr (Some page)"
    "remove_overlays_and_clean_content env9 (clean_input_text page) = Inr page"
    "parse_html env9 page = Inr d9"
    unfolding env9_def by (simp_all add: serve_facts noise_samples)
  from content_absence_is_fatal [where soup = d9 and env = env9 and url = "u ''http://a.b''"
      and language = "u ''en''" and html = page and use_proxy = "u ''zyte''" and r = page
      and ?d1.0 = d9 and texts = "[long_x]"]
    f9 l9 page_ne(1)
  have 2: "extract_article env9 (u ''http://a.b'') (u ''zyte'') (u ''en'') =
     Extracted \<lparr>art_url = u ''http://a.b'', art_title = None, art_text = long_x,
                art_authors = [], art_publish_date = None, art_method = u ''zyte''\<rparr>"
    by (simp add: meta_samples ct)
  have fn: "fetch env_none (u ''http://a.b'') (u ''zyte'') = Inr (Some page)"
    "remove_overlays_and_clean_content env_none (clean_input_text page) = Inr page"
    "parse_html env_none page = Inr d_none"
    unfolding env_none_def by (simp_all add: serve_facts noise_samples)
  have ce: "clean_text [] = []" by (rule clean_text_Nil)
  from content_absence_is_fatal [where soup = d_none and env = env_none and url = "u ''http://a.b''"
      and language = "u ''en''" and html = page and t = "[]" and use_proxy = "u ''zyte''"
      and r = page]
    fn fbn page_ne(1) ce
  have 3: "extract_article env_none (u ''http://a.b'') (u ''zyte'') (u ''en'') =
     Failure (u ''http://a.b'') (u ''No content found'')"
    by (simp add: cascade_none)
  from 1 2 3 fb9 fbn show ?thesis by (simp add: cascade_samples cascade_none meta_samples)
qed

lemma sub_ws_hd: "s \<noteq> [] \<Longrightarrow> \<not> is_space (hd s) \<Longrightarrow> sub_ws s \<noteq> [] \<and> hd (sub_ws s) = hd s"
  by (cases s) simp_all

lemma sub_ws_no_adjacent: "\<not> adjacent_spaces (sub_ws s)"
proof (induction s rule: sub_ws.induct)
  case 1
  show ?case by simp
next
  case (2 c cs)
  let ?d = "dropWhile is_space cs"
  show ?case
  proof (cases "is_space c")
    case True
    with 2 have ih: "\<not> adjacent_spaces (sub_ws ?d)" by simp
    have "sub_ws ?d = [] \<or> \<not> is_space (hd (sub_ws ?d))"
    proof (cases "?d = []")
      case True
      then have "sub_ws ?d = []" by (simp only: sub_ws.simps(1))
      then show ?thesis by blast
    next
      case False
      then have "\<not> is_space (hd ?d)" by (rule hd_dropWhile)
      with False sub_ws_hd [of ?d] show ?thesis by simp
    qed
    with ih True show ?thesis by (auto simp: adjacent_spaces_Cons)
  next
    case False
    with 2 show ?thesis by (simp add: adjacent_spaces_Cons)
  qed
qed

lemma art_text_no_nl:
  "extract_article env url p l = Extracted a \<Longrightarrow> nl \<notin> set (art_text a)"
proof -
  assume "extract_article env url p l = Extracted a"
  then obtain d texts where "Extracted a = assemble url p d texts" and "texts \<noteq> []"
    by (auto simp: extract_article_def extract_body_def assemble_def
        split: sum.splits option.splits if_splits prod.splits)
  then have "art_text a = clean_text (join [nl, nl] texts)" by (simp add: assemble_def)
  moreover have "is_space nl" "nl \<noteq> sp" by (simp_all add: is_space_def nl_def sp_def)
  ultimately show ?thesis using clean_text_chars [of nl "join [nl, nl] texts"] by auto
qed

text \<open>
  Claim C10.  The output of the normalizer holds no newline: its only whitespace
  characters are spaces, since the second substitution leaves single spaces as the only
  whitespace (the blank lines written by the first substitution included) and the later
  steps only remove characters.  So the text of every result is one line.
\<close>

theorem normalized_text_single_line:
  "nl \<notin> set (clean_text t) \<and>
   (\<forall>c\<in>set (clean_text t). is_space c \<longrightarrow> c = sp) \<and>
   (\<forall>c\<in>set (sub_ws (sub_blank t)). is_space c \<longrightarrow> c = sp) \<and>
   \<not> adjacent_spaces (sub_ws (sub_blank t)) \<and>
   (extract_article env url use_proxy language = Extracted a \<longrightarrow> nl \<notin> set (art_text a))"
proof (intro conjI ballI impI)
  have "is_space nl" "nl \<noteq> sp" by (simp_all add: is_space_def nl_def sp_def)
  then show "nl \<notin> set (clean_text t)" using clean_text_chars [of nl t] by auto
next
  fix c assume "c \<in> set (clean_text t)" "is_space c"
  then show "c = sp" by (rule clean_text_chars)
next
  fix c assume "c \<in> set (sub_ws (sub_blank t))" "is_space c"
  then show "c = sp" by (rule sub_ws_chars)
next
  show "\<not> adjacent_spaces (sub_ws (sub_blank t))" by (rule sub_ws_no_adjacent)
next
  assume "extract_article env url use_proxy language = Extracted a"
  then show "nl \<notin> set (art_text a)" by (rule art_text_no_nl)
qed

theorem normalized_text_single_line_witness:
  "clean_text (u ''a'' @ [nl, nl] @ u ''b'') = u ''a b'' \<and>
   nl \<notin> set (clean_text (u ''a'' @ [nl, nl] @ u ''b'')) \<and>
   extract_article env0 (u ''http://a.b'') (u ''zyte'') (u ''en'') =
     Extracted \<lparr>art_url = u ''http://a.b'', art_title = Some (u ''Title Text''),
                art_text = replicate 150 120, art_authors = [], art_publish_date = None,
                art_method = u ''zyte''\<rparr> \<and>
   nl \<notin> set (replicate 150 120)"
proof -
  let ?a = "\<lparr>art_url = u ''http://a.b'', art_title = Some (u ''Title Text''),
                art_text = replicate 150 120, art_authors = [], art_publish_date = None,
                art_method = u ''zyte''\<rparr>"
  note t = normalized_text_single_line [where t = "u ''a'' @ [nl, nl] @ u ''b''" and env = env0
      and url = "u ''http://a.b''" and use_proxy = "u ''zyte''" and language = "u ''en''"
      and a = ?a]
  from t have 1: "nl \<notin> set (clean_text (u ''a'' @ [nl, nl] @ u ''b''))" by blast
  from t end_to_end have "nl \<notin> set (art_text ?a)" by blast
  then have 2: "nl \<notin> set (replicate 150 120)" by simp
  have 3: "clean_text (u ''a'' @ [nl, nl] @ u ''b'') = u ''a b''"
    by (simp add: text_eval)
  from 1 2 3 end_to_end show ?thesis by blast
qed

end
